theory Spec2Isabelle
  imports Complex_Main "HOL-Library.Word" "HOL-Library.Multiset" "HOL-Library.Log_Nat"
begin

section \<open>Mini-Redis: the store (hash\_table.c) and the command interpreter (server.c)\<close>

text \<open>
  Conventions of the embedding.
  \<^item> The target is an LP64 platform: \<open>size_t\<close> and \<open>uint64_t\<close> are \<open>64 word\<close>, with the
    wrap-around of C's unsigned arithmetic.
  \<^item> A C string is modelled by the bytes before its terminating NUL, a \<open>string\<close>;
    \<open>strlen\<close> is \<open>length\<close> (an object of the C program is shorter than \<open>2 ^ 64\<close> bytes).
  \<^item> A pointer is modelled by the object it points to. The guards \<open>if (!ht || !key ...)\<close>
    at the top of \<open>ht_set\<close>, \<open>ht_get\<close>, \<open>ht_delete\<close>, \<open>ht_stats\<close> and
    \<open>process_command\<close> have no branch here: the parameter types hold no null pointer.
    A pointer that the code itself may produce as NULL (the result of an allocation, of
    \<open>ht_create\<close>, \<open>ht_get\<close>, \<open>str_duplicate\<close>) is an \<open>option\<close>.
  \<^item> A bucket chain (\<open>HashEntry\<close> nodes linked by \<open>next\<close>) is the list of its nodes, head
    first; the bucket array is the list of its chains.
  \<^item> The allocator is an oracle: the list of the outcomes of the coming allocation
    requests. Every function that allocates takes the oracle and returns what is left.
\<close>

subsection \<open>mini\_redis.h\<close>

definition INITIAL_BUCKETS :: "64 word" where
  "INITIAL_BUCKETS = 64"

definition MAX_KEY_SIZE :: nat where
  "MAX_KEY_SIZE = 256"

definition MAX_VALUE_SIZE :: nat where
  "MAX_VALUE_SIZE = 4096"

record HashEntry =
  key :: string
  val :: string
  key_len :: "64 word"
  value_len :: "64 word"

type_synonym chain = "HashEntry list"

record HashTable =
  buckets :: "chain list"
  num_buckets :: "64 word"
  num_entries :: "64 word"
  memory_used :: "64 word"

text \<open>The sizes of the two structs and of a pointer under LP64.\<close>

definition sizeof_HashEntry :: "64 word" where
  "sizeof_HashEntry = 40"

definition sizeof_HashTable :: "64 word" where
  "sizeof_HashTable = 32"

definition sizeof_ptr :: "64 word" where
  "sizeof_ptr = 8"

subsection \<open>The allocator\<close>

type_synonym heap = "bool list"

text \<open>\<open>malloc\<close>: the next outcome of the oracle; an exhausted oracle grants every request.\<close>

fun malloc :: "heap \<Rightarrow> bool \<times> heap" where
  "malloc [] = (True, [])"
| "malloc (b # h) = (b, h)"

text \<open>
  \<open>calloc(nmemb, size)\<close> fails when \<open>nmemb * size\<close> does not fit \<open>size_t\<close>, and
  otherwise as \<open>malloc\<close> does.
\<close>

definition calloc :: "heap \<Rightarrow> 64 word \<Rightarrow> 64 word \<Rightarrow> bool \<times> heap" where
  "calloc h nmemb sz = (if 2 ^ 64 \<le> uint nmemb * uint sz then (False, h) else malloc h)"

subsection \<open>Single-precision arithmetic of the load-factor test\<close>

text \<open>
  \<open>(float)ht->num_entries / (float)ht->num_buckets\<close> is computed in IEEE-754 binary32,
  round to nearest, ties to even (the \<open>float\<close> arithmetic of x86-64 and AArch64). The
  operands are counts below \<open>2 ^ 64\<close> and the divisor of a store is not zero, so every
  operand and result lies in the normal range and a binary32 value is modelled by the
  rational it denotes. The comparison with \<open>LOAD_FACTOR_THRESHOLD\<close>, the double \<open>0.75\<close>,
  is exact.
\<close>

definition round_ties_even :: "rat \<Rightarrow> int" where
  "round_ties_even x =
     (let f = \<lfloor>x\<rfloor>; d = x - of_int f
      in if d < 1 / 2 then f else if 1 / 2 < d then f + 1 else if even f then f else f + 1)"

text \<open>For \<open>0 < x\<close>, the exponent \<open>e\<close> with \<open>2 ^ 23 \<le> x / 2 ^ e < 2 ^ 24\<close>.\<close>

definition binary32_exponent :: "rat \<Rightarrow> int" where
  "binary32_exponent x =
     (if 1 \<le> x then bitlen \<lfloor>x\<rfloor> - 1 else - bitlen (\<lceil>1 / x\<rceil> - 1)) - 23"

definition binary32_round :: "rat \<Rightarrow> rat" where
  "binary32_round x =
     (if x \<le> 0 then 0
      else let e = binary32_exponent x
           in of_int (round_ties_even (x / 2 powi e)) * 2 powi e)"

definition float_of_size_t :: "64 word \<Rightarrow> rat" where
  "float_of_size_t n = binary32_round (of_nat (unat n))"

definition float_div :: "rat \<Rightarrow> rat \<Rightarrow> rat" where
  "float_div a b = binary32_round (a / b)"

definition LOAD_FACTOR_THRESHOLD :: rat where
  "LOAD_FACTOR_THRESHOLD = 3 / 4"

subsection \<open>hash\_table.c\<close>

text \<open>
  \<open>hash_djb2\<close>: \<open>c = *str++\<close> reads a \<open>char\<close> into an \<open>int\<close>; with the signed \<open>char\<close> of
  x86-64 the byte is sign-extended before it is added to the 64-bit hash.
\<close>

fun hash_loop :: "64 word \<Rightarrow> string \<Rightarrow> 64 word" where
  "hash_loop hash [] = hash"
| "hash_loop hash (c # str) =
     hash_loop ((push_bit 5 hash + hash) + scast (of_char c :: 8 word)) str"

definition hash_djb2 :: "string \<Rightarrow> 64 word" where
  "hash_djb2 str = hash_loop 5381 str"

definition strlen :: "string \<Rightarrow> nat" where
  "strlen s = length s"

text \<open>\<open>entry_create\<close>: three allocations, the node, the key and the value.\<close>

definition entry_create :: "heap \<Rightarrow> string \<Rightarrow> string \<Rightarrow> HashEntry option \<times> heap" where
  "entry_create h k v =
     (case malloc h of
        (False, h1) \<Rightarrow> (None, h1)
      | (True, h1) \<Rightarrow>
          (case malloc h1 of
             (False, h2) \<Rightarrow> (None, h2)
           | (True, h2) \<Rightarrow>
               (case malloc h2 of
                  (False, h3) \<Rightarrow> (None, h3)
                | (True, h3) \<Rightarrow>
                    (Some \<lparr>key = k, val = v,
                           key_len = of_nat (strlen k), value_len = of_nat (strlen v)\<rparr>, h3))))"

definition entry_memory :: "HashEntry \<Rightarrow> 64 word" where
  "entry_memory entry = sizeof_HashEntry + key_len entry + 1 + value_len entry + 1"

definition ht_create :: "heap \<Rightarrow> 64 word \<Rightarrow> HashTable option \<times> heap" where
  "ht_create h initial_buckets =
     (case malloc h of
        (False, h1) \<Rightarrow> (None, h1)
      | (True, h1) \<Rightarrow>
          (let n = (if 0 < initial_buckets then initial_buckets else INITIAL_BUCKETS)
           in case calloc h1 n sizeof_ptr of
                (False, h2) \<Rightarrow> (None, h2)
              | (True, h2) \<Rightarrow>
                  (Some \<lparr>buckets = replicate (unat n) [],
                         num_buckets = n,
                         num_entries = 0,
                         memory_used = sizeof_HashTable + n * sizeof_ptr\<rparr>, h2)))"

text \<open>
  The bucket of a key, \<open>hash_djb2(key) % num_buckets\<close>. A store has at least one bucket
  (\<open>ht_wf\<close> below), so the modulus is not zero and the index lies within the array.
\<close>

definition bucket_index :: "string \<Rightarrow> 64 word \<Rightarrow> nat" where
  "bucket_index k n = unat (hash_djb2 k mod n)"

text \<open>
  \<open>ht_resize\<close>. The inner loop relinks the nodes of one chain, head first, each at the
  head of its new bucket; the outer loop visits the old buckets in index order.
\<close>

fun rehash_chain :: "64 word \<Rightarrow> chain \<Rightarrow> chain list \<Rightarrow> chain list" where
  "rehash_chain n [] new_buckets = new_buckets"
| "rehash_chain n (entry # next) new_buckets =
     (let new_index = bucket_index (key entry) n
      in rehash_chain n next (new_buckets[new_index := entry # new_buckets ! new_index]))"

fun rehash_buckets :: "64 word \<Rightarrow> chain list \<Rightarrow> chain list \<Rightarrow> chain list" where
  "rehash_buckets n [] new_buckets = new_buckets"
| "rehash_buckets n (c # cs) new_buckets = rehash_buckets n cs (rehash_chain n c new_buckets)"

definition ht_resize :: "heap \<Rightarrow> HashTable \<Rightarrow> int \<times> HashTable \<times> heap" where
  "ht_resize h ht =
     (let new_num_buckets = num_buckets ht * 2
      in case calloc h new_num_buckets sizeof_ptr of
           (False, h1) \<Rightarrow> (- 1, ht, h1)
         | (True, h1) \<Rightarrow>
             (let new_buckets =
                    rehash_buckets new_num_buckets (buckets ht)
                      (replicate (unat new_num_buckets) [])
              in (0,
                  ht\<lparr>memory_used :=
                        memory_used ht - num_buckets ht * sizeof_ptr
                          + new_num_buckets * sizeof_ptr,
                      buckets := new_buckets,
                      num_buckets := new_num_buckets\<rparr>,
                  h1)))"

text \<open>
  The search loop of \<open>ht_set\<close> over the chain of the target bucket. It ends in one of
  three ways: the key is found and its value replaced, the key is found and the
  allocation of the new value fails, or the chain is exhausted.
\<close>

datatype update = Updated chain "64 word" "64 word" heap | Update_Failed heap | Not_There

fun update_chain :: "heap \<Rightarrow> string \<Rightarrow> string \<Rightarrow> chain \<Rightarrow> update" where
  "update_chain h k v [] = Not_There"
| "update_chain h k v (entry # next) =
     (if key entry = k then
        (let old_mem = entry_memory entry
         in case malloc h of
              (False, h1) \<Rightarrow> Update_Failed h1
            | (True, h1) \<Rightarrow>
                (let entry' = entry\<lparr>val := v, value_len := of_nat (strlen v)\<rparr>
                 in Updated (entry' # next) old_mem (entry_memory entry') h1))
      else
        (case update_chain h k v next of
           Updated next' old_mem new_mem h1 \<Rightarrow> Updated (entry # next') old_mem new_mem h1
         | Update_Failed h1 \<Rightarrow> Update_Failed h1
         | Not_There \<Rightarrow> Not_There))"

definition load_factor :: "HashTable \<Rightarrow> rat" where
  "load_factor ht = float_div (float_of_size_t (num_entries ht)) (float_of_size_t (num_buckets ht))"

text \<open>
  Lines 180-221 of \<open>ht_set\<close>: the bucket index, the search of the chain, and the update
  in place or the insertion at the head of the chain.
\<close>

definition ht_set_entry :: "heap \<Rightarrow> HashTable \<Rightarrow> string \<Rightarrow> string \<Rightarrow> int \<times> HashTable \<times> heap" where
  "ht_set_entry h ht k v =
     (let index = bucket_index k (num_buckets ht)
      in case update_chain h k v (buckets ht ! index) of
           Updated c old_mem new_mem h1 \<Rightarrow>
             (0,
              ht\<lparr>buckets := (buckets ht)[index := c],
                 memory_used := memory_used ht - old_mem + new_mem\<rparr>,
              h1)
         | Update_Failed h1 \<Rightarrow> (- 1, ht, h1)
         | Not_There \<Rightarrow>
             (case entry_create h k v of
                (None, h1) \<Rightarrow> (- 1, ht, h1)
              | (Some new_entry, h1) \<Rightarrow>
                  (0,
                   ht\<lparr>buckets := (buckets ht)[index := new_entry # buckets ht ! index],
                      num_entries := num_entries ht + 1,
                      memory_used := memory_used ht + entry_memory new_entry\<rparr>,
                   h1)))"

text \<open>
  \<open>ht_set\<close>: the size limits, the load-factor test with the resize whose failure is
  ignored, then the lines above on the table as the resize left it.
\<close>

definition ht_set :: "heap \<Rightarrow> HashTable \<Rightarrow> string \<Rightarrow> string \<Rightarrow> int \<times> HashTable \<times> heap" where
  "ht_set h ht k v =
     (if MAX_KEY_SIZE < strlen k \<or> MAX_VALUE_SIZE < strlen v then (- 1, ht, h)
      else if LOAD_FACTOR_THRESHOLD < load_factor ht
        then (case ht_resize h ht of (r, ht1, h1) \<Rightarrow> ht_set_entry h1 ht1 k v)
        else ht_set_entry h ht k v)"

fun get_chain :: "string \<Rightarrow> chain \<Rightarrow> string option" where
  "get_chain k [] = None"
| "get_chain k (entry # next) = (if key entry = k then Some (val entry) else get_chain k next)"

definition ht_get :: "HashTable \<Rightarrow> string \<Rightarrow> string option" where
  "ht_get ht k = get_chain k (buckets ht ! bucket_index k (num_buckets ht))"

text \<open>
  The loop of \<open>ht_delete\<close>: the chain without the first node that holds the key, and the
  accounted size of that node; \<open>None\<close> when no node holds the key.
\<close>

fun delete_chain :: "string \<Rightarrow> chain \<Rightarrow> (chain \<times> 64 word) option" where
  "delete_chain k [] = None"
| "delete_chain k (entry # next) =
     (if key entry = k then Some (next, entry_memory entry)
      else (case delete_chain k next of
              None \<Rightarrow> None
            | Some (next', m) \<Rightarrow> Some (entry # next', m)))"

definition ht_delete :: "HashTable \<Rightarrow> string \<Rightarrow> int \<times> HashTable" where
  "ht_delete ht k =
     (let index = bucket_index k (num_buckets ht)
      in case delete_chain k (buckets ht ! index) of
           None \<Rightarrow> (- 1, ht)
         | Some (c, m) \<Rightarrow>
             (0, ht\<lparr>buckets := (buckets ht)[index := c],
                    memory_used := memory_used ht - m,
                    num_entries := num_entries ht - 1\<rparr>))"

definition ht_stats :: "HashTable \<Rightarrow> 64 word \<times> 64 word" where
  "ht_stats ht = (num_entries ht, memory_used ht)"

subsection \<open>server.c: the command interpreter\<close>

text \<open>\<open>isspace\<close> and \<open>toupper\<close> in the "C" locale (the program never calls \<open>setlocale\<close>).\<close>

definition isspace :: "char \<Rightarrow> bool" where
  "isspace c =
     (c = CHR 0x20 \<or> c = CHR 0x09 \<or> c = CHR 0x0A \<or> c = CHR 0x0B \<or> c = CHR 0x0C \<or> c = CHR 0x0D)"

definition toupper :: "char \<Rightarrow> char" where
  "toupper c =
     (let n = (of_char c :: nat) in if 97 \<le> n \<and> n \<le> 122 then char_of (n - 32) else c)"

text \<open>
  \<open>trim_whitespace\<close>. \<open>trim_end str i\<close> is the loop
  \<open>while (end > str && isspace(*end)) end--\<close> started at offset \<open>i\<close>; it returns the
  offset of \<open>end\<close> when the loop stops.
\<close>

fun trim_end :: "string \<Rightarrow> nat \<Rightarrow> nat" where
  "trim_end str 0 = 0"
| "trim_end str (Suc i) = (if isspace (str ! Suc i) then trim_end str i else Suc i)"

definition trim_whitespace :: "string \<Rightarrow> string" where
  "trim_whitespace str0 =
     (let str = dropWhile isspace str0
      in if str = [] then str
         else take (trim_end str (strlen str - 1) + 1) str)"

definition str_duplicate :: "heap \<Rightarrow> string \<Rightarrow> string option \<times> heap" where
  "str_duplicate h str = (case malloc h of (False, h1) \<Rightarrow> (None, h1) | (True, h1) \<Rightarrow> (Some str, h1))"

text \<open>
  \<open>strtok_r\<close> with the delimiters \<open>" \t"\<close>: the next token and the text after the
  delimiter that ended it, or \<open>None\<close> when only delimiters are left.
\<close>

definition is_delim :: "char \<Rightarrow> bool" where
  "is_delim c = (c = CHR 0x20 \<or> c = CHR 0x09)"

definition strtok_r :: "string \<Rightarrow> (string \<times> string) option" where
  "strtok_r s =
     (let s1 = dropWhile is_delim s
      in if s1 = [] then None
         else Some (takeWhile (\<lambda>c. \<not> is_delim c) s1, drop 1 (dropWhile (\<lambda>c. \<not> is_delim c) s1)))"

text \<open>\<open>parse_command\<close>: at most \<open>max_tokens\<close> tokens.\<close>

fun parse_command :: "string \<Rightarrow> nat \<Rightarrow> string list" where
  "parse_command cmd 0 = []"
| "parse_command cmd (Suc max_tokens) =
     (case strtok_r cmd of
        None \<Rightarrow> []
      | Some (token, rest) \<Rightarrow> token # parse_command rest max_tokens)"

text \<open>\<open>%zu\<close>: the decimal digits of a \<open>size_t\<close>.\<close>

fun decimal :: "nat \<Rightarrow> string" where
  "decimal n =
     (if n < 10 then [char_of (48 + n)] else decimal (n div 10) @ [char_of (48 + n mod 10)])"

text \<open>
  The result of \<open>process_command\<close>: the reply (\<open>None\<close> is a NULL reply, after a failed
  \<open>str_duplicate\<close>), the store and the allocator afterwards. In the \<open>SET\<close> branch the
  second copy of the line is trimmed without a check of the allocation, so a failed
  allocation there is a null dereference. The \<open>KEYS\<close> branch (lines 245-294), which
  formats the listing in a growing buffer, is outside this development.
\<close>

datatype outcome =
  Returns "string option" HashTable heap
| Null_Dereference
| KEYS_Branch

definition reply :: "heap \<Rightarrow> HashTable \<Rightarrow> string \<Rightarrow> outcome" where
  "reply h ht str = (case str_duplicate h str of (r, h') \<Rightarrow> Returns r ht h')"

definition set_value_start :: "string \<Rightarrow> string" where
  "set_value_start trimmed_orig =
     dropWhile isspace
       (dropWhile (\<lambda>c. \<not> isspace c)
          (dropWhile isspace
             (dropWhile (\<lambda>c. \<not> isspace c) trimmed_orig)))"

definition stats_text :: "64 word \<Rightarrow> 64 word \<Rightarrow> string" where
  "stats_text num_keys memory_bytes =
     ''{'' @ [CHR 0x22] @ ''keys'' @ [CHR 0x22] @ '': '' @ decimal (unat num_keys) @ '', ''
       @ [CHR 0x22] @ ''memory_bytes'' @ [CHR 0x22] @ '': '' @ decimal (unat memory_bytes) @ ''}''"

definition process_command :: "heap \<Rightarrow> HashTable \<Rightarrow> string \<Rightarrow> outcome" where
  "process_command h ht command =
     (case str_duplicate h command of
        (None, h1) \<Rightarrow> reply h1 ht ''ERROR: Memory allocation failed''
      | (Some cmd_copy, h1) \<Rightarrow>
          (let trimmed = trim_whitespace cmd_copy
           in if strlen trimmed = 0 then reply h1 ht ''ERROR: Empty command''
              else
                (let parsed = parse_command trimmed 10;
                     num_tokens = length parsed
                 in if num_tokens = 0 then reply h1 ht ''ERROR: Empty command''
                    else
                      (let tokens = parsed[0 := map toupper (parsed ! 0)]
                       in if tokens ! 0 = ''SET'' then
                            (if num_tokens < 3 then reply h1 ht ''ERROR: SET requires key and value''
                             else
                               (case str_duplicate h1 command of
                                  (None, h2) \<Rightarrow> Null_Dereference
                                | (Some original_copy, h2) \<Rightarrow>
                                    (let p = set_value_start (trim_whitespace original_copy)
                                     in if p \<noteq> [] then
                                          (case ht_set h2 ht (tokens ! 1) p of
                                             (r, ht', h3) \<Rightarrow>
                                               if r = 0 then reply h3 ht' ''OK''
                                               else reply h3 ht' ''ERROR: Failed to set value'')
                                        else reply h2 ht ''ERROR: SET requires a value'')))
                          else if tokens ! 0 = ''GET'' then
                            (if num_tokens < 2 then reply h1 ht ''ERROR: GET requires a key''
                             else
                               (case ht_get ht (tokens ! 1) of
                                  Some v \<Rightarrow> reply h1 ht v
                                | None \<Rightarrow> reply h1 ht ''NULL''))
                          else if tokens ! 0 = ''DEL'' then
                            (if num_tokens < 2 then reply h1 ht ''ERROR: DEL requires a key''
                             else
                               (case ht_delete ht (tokens ! 1) of
                                  (r, ht') \<Rightarrow>
                                    if r = 0 then reply h1 ht' ''OK'' else reply h1 ht' ''NOT FOUND''))
                          else if tokens ! 0 = ''STATS'' then
                            (case ht_stats ht of
                               (num_keys, memory_bytes) \<Rightarrow>
                                 reply h1 ht (take 255 (stats_text num_keys memory_bytes)))
                          else if tokens ! 0 = ''KEYS'' then KEYS_Branch
                          else if tokens ! 0 = ''PING'' then reply h1 ht ''PONG''
                          else if tokens ! 0 = ''QUIT'' then reply h1 ht ''BYE''
                          else
                            reply h1 ht
                              (take 255 (''ERROR: Unknown command '' @ [CHR 0x27] @ tokens ! 0 @ [CHR 0x27]))))))"

subsection \<open>Sequences of operations and the invariants of a store\<close>

text \<open>An allocator that grants every request it is asked.\<close>

definition grants :: "heap \<Rightarrow> bool" where
  "grants h = (\<forall>b \<in> set h. b)"

text \<open>
  The shape of a store in memory: the bucket array has \<open>num_buckets\<close> slots, at least
  one, and its \<open>num_buckets * sizeof(HashEntry *)\<close> bytes fit the address space.
\<close>

definition ht_wf :: "HashTable \<Rightarrow> bool" where
  "ht_wf ht =
     (length (buckets ht) = unat (num_buckets ht) \<and> 0 < num_buckets ht
      \<and> uint (num_buckets ht) * uint sizeof_ptr < 2 ^ 64)"

text \<open>A store of one bucket that holds one entry: its load factor is 1.\<close>

definition loaded_store :: HashTable where
  "loaded_store = fst (snd (ht_set [] (the (fst (ht_create [] 1))) ''a'' ''1''))"

text \<open>
  The operations on a store. \<open>Resize\<close> is \<open>ht_resize\<close> called on its own; the program
  calls it from \<open>ht_set\<close> only, so a run with \<open>Resize\<close> steps covers more than the
  program can do.
\<close>

datatype operation = Set string string | Delete string | Resize

fun apply_op :: "heap \<Rightarrow> HashTable \<Rightarrow> operation \<Rightarrow> int \<times> HashTable \<times> heap" where
  "apply_op h ht (Set k v) = ht_set h ht k v"
| "apply_op h ht (Delete k) = (case ht_delete ht k of (r, ht') \<Rightarrow> (r, ht', h))"
| "apply_op h ht Resize = ht_resize h ht"

text \<open>\<open>run\<close>: the operations in order; the status of each, the final store and allocator.\<close>

fun run :: "heap \<Rightarrow> HashTable \<Rightarrow> operation list \<Rightarrow> int list \<times> HashTable \<times> heap" where
  "run h ht [] = ([], ht, h)"
| "run h ht (x # xs) =
     (case apply_op h ht x of
        (r, ht1, h1) \<Rightarrow> (case run h1 ht1 xs of (rs, ht2, h2) \<Rightarrow> (r # rs, ht2, h2)))"

text \<open>The entry nodes of a store: bucket by bucket, each chain head first.\<close>

definition entries :: "HashTable \<Rightarrow> HashEntry list" where
  "entries ht = concat (buckets ht)"

text \<open>The key-value map that the entries of a store denote.\<close>

definition abs_map :: "HashTable \<Rightarrow> string \<rightharpoonup> string" where
  "abs_map ht = map_of (map (\<lambda>e. (key e, val e)) (entries ht))"

text \<open>
  The accounted size of an entry, from the lengths of its strings: the node, the key and
  its terminator, the value and its terminator.
\<close>

definition accounted_size :: "HashEntry \<Rightarrow> 64 word" where
  "accounted_size e = sizeof_HashEntry + of_nat (length (key e)) + 1 + of_nat (length (val e)) + 1"

text \<open>The fixed overhead of the table: the header and the bucket array.\<close>

definition table_overhead :: "HashTable \<Rightarrow> 64 word" where
  "table_overhead ht = sizeof_HashTable + num_buckets ht * sizeof_ptr"

text \<open>The length fields of an entry agree with its strings.\<close>

definition entry_ok :: "HashEntry \<Rightarrow> bool" where
  "entry_ok e = (key_len e = of_nat (length (key e)) \<and> value_len e = of_nat (length (val e)))"

text \<open>Every entry of bucket \<open>i\<close> of an array of \<open>n\<close> buckets hashes to \<open>i\<close>.\<close>

definition placed :: "64 word \<Rightarrow> chain list \<Rightarrow> bool" where
  "placed n bs = (\<forall>i < length bs. \<forall>e \<in> set (bs ! i). bucket_index (key e) n = i)"

text \<open>The invariant of a store.\<close>

definition ht_inv :: "HashTable \<Rightarrow> bool" where
  "ht_inv ht =
     (ht_wf ht \<and> placed (num_buckets ht) (buckets ht)
      \<and> distinct (map key (entries ht))
      \<and> (\<forall>e \<in> set (entries ht). entry_ok e)
      \<and> num_entries ht = of_nat (length (entries ht))
      \<and> memory_used ht = table_overhead ht + sum_list (map accounted_size (entries ht)))"

text \<open>
  The live keys after a run: a key enters with a successful set and leaves with a
  successful delete.
\<close>

fun live_keys :: "string set \<Rightarrow> operation list \<Rightarrow> int list \<Rightarrow> string set" where
  "live_keys L (Set k v # xs) (r # rs) = live_keys (if r = 0 then insert k L else L) xs rs"
| "live_keys L (Delete k # xs) (r # rs) = live_keys (if r = 0 then L - {k} else L) xs rs"
| "live_keys L (Resize # xs) (r # rs) = live_keys L xs rs"
| "live_keys L xs rs = L"

definition power_of_two :: "nat \<Rightarrow> bool" where
  "power_of_two n = (\<exists>j. n = 2 ^ j)"

text \<open>
  A run that inserts, updates, deletes, misses a delete, resizes and inserts again, and the
  store it leaves when it starts from a store of four buckets.
\<close>

definition sample_ops :: "operation list" where
  "sample_ops =
     [Set ''a'' ''1'', Set ''b'' ''22'', Set ''a'' ''333'', Delete ''b'', Delete ''zz'', Resize,
      Set ''c'' ''4'']"

definition sample_store :: HashTable where
  "sample_store = fst (snd (run [] (the (fst (ht_create [] 4))) sample_ops))"

text \<open>
  A store of one bucket, empty, and the same store after the command \<open>SET k NULL\<close>.
\<close>

definition empty_store :: HashTable where
  "empty_store = \<lparr>buckets = [[]], num_buckets = 1, num_entries = 0, memory_used = 40\<rparr>"

definition null_store :: HashTable where
  "null_store =
     \<lparr>buckets = [[\<lparr>key = ''k'', val = ''NULL'', key_len = 1, value_len = 4\<rparr>]],
      num_buckets = 1, num_entries = 1, memory_used = 87\<rparr>"

text \<open>
  The insertion of a list of key-value pairs, and sample pairs with distinct keys: the
  keys \<open>k\<close>, \<open>kk\<close>, \<open>kkk\<close> and so on, with the values \<open>v\<close>, \<open>vv\<close>, \<open>vvv\<close>.
\<close>

definition inserts :: "(string \<times> string) list \<Rightarrow> operation list" where
  "inserts kvs = map (\<lambda>(k, v). Set k v) kvs"

definition sample_kvs :: "nat \<Rightarrow> (string \<times> string) list" where
  "sample_kvs n = map (\<lambda>i. (replicate (Suc i) (CHR ''k''), replicate (Suc i) (CHR ''v''))) [0..<n]"

text \<open>
  The store of the server, \<open>ht_create(INITIAL_BUCKETS)\<close>, and that store after the
  insertion of the first \<open>m\<close> sample pairs.
\<close>

definition fresh_store :: HashTable where
  "fresh_store = the (fst (ht_create [] INITIAL_BUCKETS))"

definition store_after :: "nat \<Rightarrow> HashTable" where
  "store_after m = fst (snd (run [] fresh_store (inserts (sample_kvs m))))"

section \<open>Properties\<close>

subsection \<open>The allocator\<close>

lemma malloc_grants: "grants h \<Longrightarrow> fst (malloc h) \<and> grants (snd (malloc h))"
  by (cases h) (auto simp: grants_def)

lemma entry_create_grants:
  "grants h \<Longrightarrow> \<exists>e h'. entry_create h k v = (Some e, h') \<and> grants h' \<and> key e = k \<and> val e = v
       \<and> key_len e = of_nat (length k) \<and> value_len e = of_nat (length v)"
proof -
  assume g: "grants h"
  obtain h1 where 1: "malloc h = (True, h1)" "grants h1"
    using malloc_grants [OF g] by (cases "malloc h") auto
  obtain h2 where 2: "malloc h1 = (True, h2)" "grants h2"
    using malloc_grants [OF 1(2)] by (cases "malloc h1") auto
  obtain h3 where 3: "malloc h2 = (True, h3)" "grants h3"
    using malloc_grants [OF 2(2)] by (cases "malloc h2") auto
  show ?thesis
    by (simp add: entry_create_def 1 2 3 strlen_def)
qed

lemma update_chain_grants: "grants h \<Longrightarrow> update_chain h k v c \<noteq> Update_Failed h'"
proof (induction c arbitrary: h')
  case Nil
  then show ?case by simp
next
  case (Cons e c)
  obtain h1 where 1: "malloc h = (True, h1)"
    using malloc_grants [OF Cons.prems] by (cases "malloc h") auto
  show ?case
    using Cons.IH [OF Cons.prems] by (simp add: 1 Let_def split: update.splits)
qed

lemma ht_set_entry_grants: "grants h \<Longrightarrow> fst (ht_set_entry h ht k v) = 0"
proof -
  assume g: "grants h"
  obtain e h' where e: "entry_create h k v = (Some e, h')"
    using entry_create_grants [OF g] by blast
  show ?thesis
    using update_chain_grants [OF g, of k v "buckets ht ! bucket_index k (num_buckets ht)"]
    by (simp add: ht_set_entry_def Let_def e split: update.splits)
qed

lemma calloc_grants: "grants h \<Longrightarrow> grants (snd (calloc h n sz))"
  using malloc_grants [of h] by (simp add: calloc_def)

lemma ht_resize_grants: "grants h \<Longrightarrow> ht_resize h ht = (r, ht', h') \<Longrightarrow> grants h'"
  using calloc_grants [of h "num_buckets ht * 2" sizeof_ptr]
  by (auto simp: ht_resize_def Let_def split: prod.splits bool.splits)

lemma ht_set_grants:
  assumes "length k \<le> 256" "length v \<le> 4096" "grants h"
  shows "fst (ht_set h ht k v) = 0"
proof (cases "LOAD_FACTOR_THRESHOLD < load_factor ht")
  case True
  obtain r ht1 h1 where r: "ht_resize h ht = (r, ht1, h1)"
    by (cases "ht_resize h ht") auto
  have "grants h1"
    using ht_resize_grants [OF assms(3) r] .
  then show ?thesis
    using assms(1,2) True r
    by (simp add: ht_set_def MAX_KEY_SIZE_def MAX_VALUE_SIZE_def strlen_def ht_set_entry_grants)
next
  case False
  then show ?thesis
    using assms
    by (simp add: ht_set_def MAX_KEY_SIZE_def MAX_VALUE_SIZE_def strlen_def ht_set_entry_grants)
qed

subsection \<open>The size limits of \<open>ht_set\<close>\<close>

text \<open>
  C4. A key of at most 256 bytes with a value of at most 4096 bytes is accepted: the set
  succeeds when the allocator grants its requests, at the boundary lengths 256 and 4096
  as well. A key of more than 256 bytes (257 is the first) or a value of more than 4096
  bytes (4097 is the first) is rejected: the set returns \<open>-1\<close>, and the store, with its
  entry count, its memory accounting and its contents, and the allocator are unchanged.
\<close>

theorem ht_set_size_boundary:
  "(length k \<le> 256 \<and> length v \<le> 4096 \<and> grants h \<longrightarrow> fst (ht_set h ht k v) = 0)
   \<and> (256 < length k \<or> 4096 < length v \<longrightarrow> ht_set h ht k v = (- 1, ht, h))"
  using ht_set_grants [of k v h ht]
  by (auto simp: ht_set_def MAX_KEY_SIZE_def MAX_VALUE_SIZE_def strlen_def)

theorem ht_set_size_boundary_witness:
  "fst (ht_set [] (the (fst (ht_create [] 0))) (replicate 256 (CHR ''k'')) (replicate 4096 (CHR ''v''))) = 0
   \<and> ht_set [] (the (fst (ht_create [] 0))) (replicate 257 (CHR ''k'')) (replicate 4096 (CHR ''v''))
       = (- 1, the (fst (ht_create [] 0)), [])
   \<and> ht_set [] (the (fst (ht_create [] 0))) (replicate 256 (CHR ''k'')) (replicate 4097 (CHR ''v''))
       = (- 1, the (fst (ht_create [] 0)), [])"
  using ht_set_size_boundary [of "replicate 256 (CHR ''k'')" "replicate 4096 (CHR ''v'')" "[]"
          "the (fst (ht_create [] 0))"]
        ht_set_size_boundary [of "replicate 257 (CHR ''k'')" "replicate 4096 (CHR ''v'')" "[]"
          "the (fst (ht_create [] 0))"]
        ht_set_size_boundary [of "replicate 256 (CHR ''k'')" "replicate 4097 (CHR ''v'')" "[]"
          "the (fst (ht_create [] 0))"]
  by (simp add: grants_def)

subsection \<open>The shape of the bucket array\<close>

lemma bucket_index_less: "0 < n \<Longrightarrow> bucket_index k n < unat n"
  by (simp add: bucket_index_def unat_mod word_greater_zero_iff unat_gt_0)

lemma length_rehash_chain [simp]: "length (rehash_chain n c bs) = length bs"
  by (induction c arbitrary: bs) (simp_all add: Let_def)

lemma length_rehash_buckets [simp]: "length (rehash_buckets n cs bs) = length bs"
  by (induction cs arbitrary: bs) simp_all

lemma ht_wf_unat_bound: "ht_wf ht \<Longrightarrow> unat (num_buckets ht) < 2305843009213693952"
proof -
  assume "ht_wf ht"
  then have "uint (num_buckets ht) * uint (8 :: 64 word) < 2 ^ 64"
    by (simp only: ht_wf_def sizeof_ptr_def)
  then have "uint (num_buckets ht) * 8 < (18446744073709551616 :: int)"
    by simp
  then have "uint (num_buckets ht) < 2305843009213693952"
    by linarith
  then have "nat (uint (num_buckets ht)) < 2305843009213693952"
    by linarith
  then show ?thesis
    by (simp only: unat_eq_nat_uint)
qed

lemma unat_double:
  assumes "unat (x :: 64 word) < 2305843009213693952"
  shows "unat (x * 2) = 2 * unat x"
proof -
  have "unat x * unat (2 :: 64 word) < 18446744073709551616"
    using assms by simp
  then have "unat x * unat (2 :: 64 word) < 2 ^ LENGTH(64)"
    by simp
  then have "unat (x * 2) = unat x * unat (2 :: 64 word)"
    by (simp only: unat_mult_lem)
  then show ?thesis
    by simp
qed

lemma ht_wf_double: "ht_wf ht \<Longrightarrow> unat (num_buckets ht * 2) = 2 * unat (num_buckets ht)"
  by (rule unat_double) (rule ht_wf_unat_bound)

lemma ht_resize_failed:
  "calloc h (num_buckets ht * 2) sizeof_ptr = (False, h1) \<Longrightarrow> ht_resize h ht = (- 1, ht, h1)"
  by (simp add: ht_resize_def Let_def)

lemma ht_resize_cases:
  assumes "ht_resize h ht = (r, ht', h')"
  obtains
    (failed) "r = - 1" "ht' = ht" "calloc h (num_buckets ht * 2) sizeof_ptr = (False, h')"
  | (resized) "r = 0" "calloc h (num_buckets ht * 2) sizeof_ptr = (True, h')"
      "ht' = ht\<lparr>memory_used :=
                   memory_used ht - num_buckets ht * sizeof_ptr + num_buckets ht * 2 * sizeof_ptr,
                 buckets := rehash_buckets (num_buckets ht * 2) (buckets ht)
                              (replicate (unat (num_buckets ht * 2)) []),
                 num_buckets := num_buckets ht * 2\<rparr>"
  using assms
  by (auto simp: ht_resize_def Let_def split: prod.splits bool.splits)

lemma calloc_True_bound: "calloc h n sz = (True, h') \<Longrightarrow> uint n * uint sz < 2 ^ 64"
  by (simp add: calloc_def split: if_splits)

lemma ht_resize_wf:
  assumes wf: "ht_wf ht" and r: "ht_resize h ht = (r, ht', h')"
  shows "ht_wf ht'"
  using r
proof (cases rule: ht_resize_cases)
  case failed
  then show ?thesis using wf by simp
next
  case resized
  have pos: "0 < unat (num_buckets ht)"
    using wf by (simp add: ht_wf_def word_greater_zero_iff unat_gt_0)
  have "0 < unat (num_buckets ht * 2)"
    using pos by (simp add: ht_wf_double [OF wf])
  then have "0 < num_buckets ht * 2"
    by (simp add: word_greater_zero_iff unat_gt_0)
  then show ?thesis
    using calloc_True_bound [OF resized(2)] by (simp add: ht_wf_def resized(3))
qed

lemma get_chain_update_chain:
  "update_chain h k v c = Updated c' old_mem new_mem h' \<Longrightarrow> get_chain k c' = Some v"
proof (induction c arbitrary: c')
  case Nil
  then show ?case by simp
next
  case (Cons e c)
  show ?case
  proof (cases "key e = k")
    case True
    then show ?thesis
      using Cons.prems by (auto simp: Let_def split: prod.splits bool.splits)
  next
    case False
    then obtain c1 where "update_chain h k v c = Updated c1 old_mem new_mem h'" "c' = e # c1"
      using Cons.prems by (auto split: update.splits)
    then show ?thesis
      using Cons.IH False by simp
  qed
qed

lemma entry_create_Some:
  "entry_create h k v = (Some e, h') \<Longrightarrow>
     e = \<lparr>key = k, val = v, key_len = of_nat (length k), value_len = of_nat (length v)\<rparr>"
  by (auto simp: entry_create_def strlen_def split: prod.splits bool.splits)

lemma ht_set_entry_wf:
  assumes "ht_wf ht" "ht_set_entry h ht k v = (r, ht', h')"
  shows "ht_wf ht'"
  using assms
  by (auto simp: ht_set_entry_def ht_wf_def Let_def split: update.splits prod.splits option.splits)

lemma ht_set_entry_get:
  assumes wf: "ht_wf ht" and s: "ht_set_entry h ht k v = (0, ht', h')"
  shows "ht_get ht' k = Some v"
proof -
  let ?i = "bucket_index k (num_buckets ht)"
  have i: "?i < length (buckets ht)"
    using wf bucket_index_less [of "num_buckets ht" k] by (simp add: ht_wf_def)
  show ?thesis
  proof (cases "update_chain h k v (buckets ht ! ?i)")
    case (Updated c old_mem new_mem h1)
    then have "ht' = ht\<lparr>buckets := (buckets ht)[?i := c],
                         memory_used := memory_used ht - old_mem + new_mem\<rparr>"
      using s by (simp add: ht_set_entry_def Let_def)
    then show ?thesis
      using i get_chain_update_chain [OF Updated] by (simp add: ht_get_def)
  next
    case (Update_Failed h1)
    then show ?thesis
      using s by (simp add: ht_set_entry_def Let_def)
  next
    case Not_There
    then obtain e where e: "entry_create h k v = (Some e, h')"
      and ht': "ht' = ht\<lparr>buckets := (buckets ht)[?i := e # buckets ht ! ?i],
                          num_entries := num_entries ht + 1,
                          memory_used := memory_used ht + entry_memory e\<rparr>"
      using s by (auto simp: ht_set_entry_def Let_def split: prod.splits option.splits)
    show ?thesis
      using i entry_create_Some [OF e] by (simp add: ht_get_def ht')
  qed
qed

lemma ht_set_cases:
  assumes "length k \<le> 256" "length v \<le> 4096" "ht_set h ht k v = (r, ht', h')"
  obtains
    (resize) r1 ht1 h1 where "LOAD_FACTOR_THRESHOLD < load_factor ht"
      "ht_resize h ht = (r1, ht1, h1)" "ht_set_entry h1 ht1 k v = (r, ht', h')"
  | (plain) "\<not> LOAD_FACTOR_THRESHOLD < load_factor ht" "ht_set_entry h ht k v = (r, ht', h')"
  using assms
  by (cases "ht_resize h ht")
     (auto simp: ht_set_def MAX_KEY_SIZE_def MAX_VALUE_SIZE_def strlen_def split: if_splits)

lemma ht_set_wf:
  assumes "ht_wf ht" "ht_set h ht k v = (r, ht', h')"
  shows "ht_wf ht'"
proof (cases "length k \<le> 256 \<and> length v \<le> 4096")
  case True
  then have "length k \<le> 256" "length v \<le> 4096"
    by simp_all
  then show ?thesis
    using assms(2)
  proof (cases rule: ht_set_cases)
    case (resize r1 ht1 h1)
    then show ?thesis
      using ht_resize_wf [OF assms(1)] ht_set_entry_wf by blast
  next
    case plain
    then show ?thesis
      using ht_set_entry_wf [OF assms(1)] by blast
  qed
next
  case False
  then show ?thesis
    using assms by (auto simp: ht_set_def MAX_KEY_SIZE_def MAX_VALUE_SIZE_def strlen_def)
qed

lemma set_get_roundtrip_aux:
  assumes "ht_wf ht" "length k \<le> 256" "length v \<le> 4096" "ht_set h ht k v = (r, ht', h')"
  shows "r = 0 \<longrightarrow> ht_get ht' k = Some v"
  using assms(2,3,4)
proof (cases rule: ht_set_cases)
  case (resize r1 ht1 h1)
  then show ?thesis
    using ht_resize_wf [OF assms(1)] ht_set_entry_get by blast
next
  case plain
  then show ?thesis
    using ht_set_entry_get [OF assms(1)] by blast
qed

subsection \<open>Set followed by get\<close>

text \<open>
  C3. For every key of at most 256 bytes and every value of at most 4096 bytes, on any
  store: when \<open>ht_set\<close> succeeds, \<open>ht_get\<close> of the key on the resulting store returns
  exactly the value; and the set succeeds whenever the allocator grants its requests.
\<close>

theorem set_get_roundtrip:
  assumes "ht_wf ht" "length k \<le> 256" "length v \<le> 4096" "ht_set h ht k v = (r, ht', h')"
  shows "(r = 0 \<longrightarrow> ht_get ht' k = Some v) \<and> (grants h \<longrightarrow> r = 0)"
  using set_get_roundtrip_aux [OF assms] ht_set_grants [OF assms(2,3), of h ht] assms(4)
  by simp

theorem set_get_roundtrip_witness:
  "ht_get (fst (snd (ht_set [] (the (fst (ht_create [] 0))) ''name'' ''Bob Smith''))) ''name''
     = Some ''Bob Smith''
   \<and> fst (ht_set [] (the (fst (ht_create [] 0))) ''name'' ''Bob Smith'') = 0"
proof -
  have wf: "ht_wf (the (fst (ht_create [] 0)))"
    by (simp add: ht_wf_def ht_create_def calloc_def INITIAL_BUCKETS_def sizeof_ptr_def)
  have g: "grants []"
    by (simp add: grants_def)
  show ?thesis
    using set_get_roundtrip [OF wf, of "''name''" "''Bob Smith''" "[]"
        "fst (ht_set [] (the (fst (ht_create [] 0))) ''name'' ''Bob Smith'')"
        "fst (snd (ht_set [] (the (fst (ht_create [] 0))) ''name'' ''Bob Smith''))"
        "snd (snd (ht_set [] (the (fst (ht_create [] 0))) ''name'' ''Bob Smith''))"] g
    by simp
qed

subsection \<open>A resize whose allocation fails\<close>

text \<open>
  C5. When the \<open>calloc\<close> of \<open>ht_resize\<close> fails, \<open>ht_resize\<close> returns \<open>-1\<close> and the table
  is the table before the call, field by field. A set within the size limits that
  triggered this resize goes on in the old table: it is exactly the lookup and update or
  insertion that a set performs when no resize is due, so it succeeds or fails by its own
  allocations only, and it succeeds when the allocator grants them.
\<close>

theorem resize_failure_is_swallowed:
  assumes "calloc h (num_buckets ht * 2) sizeof_ptr = (False, h1)"
  shows "ht_resize h ht = (- 1, ht, h1)
    \<and> (length k \<le> 256 \<and> length v \<le> 4096 \<longrightarrow>
         (LOAD_FACTOR_THRESHOLD < load_factor ht \<longrightarrow>
            ht_set h ht k v = ht_set_entry h1 ht k v
            \<and> (grants h1 \<longrightarrow> fst (ht_set h ht k v) = 0))
         \<and> (\<not> LOAD_FACTOR_THRESHOLD < load_factor ht \<longrightarrow>
              ht_set h1 ht k v = ht_set_entry h1 ht k v))"
  using ht_resize_failed [OF assms] ht_set_entry_grants [of h1 ht k v]
  by (simp add: ht_set_def MAX_KEY_SIZE_def MAX_VALUE_SIZE_def strlen_def)

theorem resize_failure_is_swallowed_witness:
  "ht_resize [False] loaded_store = (- 1, loaded_store, [])
   \<and> ht_set [False] loaded_store ''b'' ''2'' = ht_set_entry [] loaded_store ''b'' ''2''
   \<and> fst (ht_set [False] loaded_store ''b'' ''2'') = 0
   \<and> num_buckets (fst (snd (ht_set [False] loaded_store ''b'' ''2''))) = 1
   \<and> ht_get (fst (snd (ht_set [False] loaded_store ''b'' ''2''))) ''b'' = Some ''2''
   \<and> ht_get (fst (snd (ht_set [False] loaded_store ''b'' ''2''))) ''a'' = Some ''1''"
proof -
  have c: "calloc [False] (num_buckets loaded_store * 2) sizeof_ptr = (False, [])"
    by code_simp
  have l: "LOAD_FACTOR_THRESHOLD < load_factor loaded_store"
    by code_simp
  have g: "grants []"
    by (simp add: grants_def)
  have s: "ht_set_entry [] loaded_store ''b'' ''2''
             = (0, \<lparr>buckets = [[\<lparr>key = ''b'', val = ''2'', key_len = 1, value_len = 1\<rparr>,
                                 \<lparr>key = ''a'', val = ''1'', key_len = 1, value_len = 1\<rparr>]],
                    num_buckets = 1, num_entries = 2, memory_used = 128\<rparr>, [])"
    by code_simp
  have e: "ht_set [False] loaded_store ''b'' ''2'' = ht_set_entry [] loaded_store ''b'' ''2''"
    using resize_failure_is_swallowed [OF c, of "''b''" "''2''"] l by simp
  have "ht_resize [False] loaded_store = (- 1, loaded_store, [])"
    using resize_failure_is_swallowed [OF c, of "''b''" "''2''"] by simp
  moreover have "fst (ht_set [False] loaded_store ''b'' ''2'') = 0"
    using resize_failure_is_swallowed [OF c, of "''b''" "''2''"] l g by (simp add: s)
  moreover have "num_buckets (fst (snd (ht_set [False] loaded_store ''b'' ''2''))) = 1"
    by (simp add: e s)
  moreover have "ht_get (fst (snd (ht_set [False] loaded_store ''b'' ''2''))) ''b'' = Some ''2''"
    by (simp add: e s ht_get_def bucket_index_def)
  moreover have "ht_get (fst (snd (ht_set [False] loaded_store ''b'' ''2''))) ''a'' = Some ''1''"
    by (simp add: e s ht_get_def bucket_index_def)
  ultimately show ?thesis
    using e by simp
qed

subsection \<open>Bucket arrays as lists of chains\<close>

lemma concat_nth_split:
  "i < length xs \<Longrightarrow> concat xs = concat (take i xs) @ xs ! i @ concat (drop (Suc i) xs)"
proof -
  assume "i < length xs"
  then have "concat xs = concat (take i xs @ xs ! i # drop (Suc i) xs)"
    by (simp only: id_take_nth_drop [symmetric])
  then show ?thesis
    by simp
qed

lemma concat_list_update:
  "i < length xs \<Longrightarrow> concat (xs[i := c]) = concat (take i xs) @ c @ concat (drop (Suc i) xs)"
  by (simp add: upd_conv_take_nth_drop)

lemma placed_nth: "placed n bs \<Longrightarrow> i < length bs \<Longrightarrow> e \<in> set (bs ! i) \<Longrightarrow> bucket_index (key e) n = i"
  by (simp add: placed_def)

lemma placed_update:
  assumes "placed n bs" "\<forall>e \<in> set c. bucket_index (key e) n = i"
  shows "placed n (bs[i := c])"
  unfolding placed_def
proof (intro allI impI ballI)
  fix j e
  assume j: "j < length (bs[i := c])" and e: "e \<in> set (bs[i := c] ! j)"
  show "bucket_index (key e) n = j"
  proof (cases "j = i")
    case True
    then show ?thesis
      using assms(2) j e by simp
  next
    case False
    then show ?thesis
      using placed_nth [OF assms(1), of j e] j e by simp
  qed
qed

lemma placed_take:
  assumes "placed n bs" "e \<in> set (concat (take i bs))"
  shows "bucket_index (key e) n < i"
proof -
  obtain c where c: "c \<in> set (take i bs)" "e \<in> set c"
    using assms(2) by auto
  then obtain j where j: "j < length (take i bs)" "take i bs ! j = c"
    by (auto simp: in_set_conv_nth)
  then have "j < i" "j < length bs" "bs ! j = c"
    by simp_all
  then show ?thesis
    using placed_nth [OF assms(1), of j e] c(2) by simp
qed

lemma placed_drop:
  assumes "placed n bs" "e \<in> set (concat (drop (Suc i) bs))"
  shows "i < bucket_index (key e) n"
proof -
  obtain c where c: "c \<in> set (drop (Suc i) bs)" "e \<in> set c"
    using assms(2) by auto
  then obtain j where j: "j < length (drop (Suc i) bs)" "drop (Suc i) bs ! j = c"
    by (auto simp: in_set_conv_nth)
  then have "Suc i + j < length bs" "bs ! (Suc i + j) = c"
    by simp_all
  then show ?thesis
    using placed_nth [OF assms(1), of "Suc i + j" e] c(2) by simp
qed

text \<open>
  The entries of a store around the bucket of a key: the entries before and after that
  bucket hold other keys.
\<close>

lemma bucket_frame:
  assumes "ht_wf ht" "placed (num_buckets ht) (buckets ht)"
  obtains A B where
    "concat (buckets ht) = A @ buckets ht ! bucket_index k (num_buckets ht) @ B"
    "\<And>c. concat ((buckets ht)[bucket_index k (num_buckets ht) := c]) = A @ c @ B"
    "\<forall>e \<in> set A \<union> set B. key e \<noteq> k"
    "\<forall>e \<in> set (buckets ht ! bucket_index k (num_buckets ht)).
        bucket_index (key e) (num_buckets ht) = bucket_index k (num_buckets ht)"
    "bucket_index k (num_buckets ht) < length (buckets ht)"
proof -
  let ?i = "bucket_index k (num_buckets ht)"
  let ?A = "concat (take ?i (buckets ht))"
  let ?B = "concat (drop (Suc ?i) (buckets ht))"
  have i: "?i < length (buckets ht)"
    using assms(1) bucket_index_less [of "num_buckets ht" k] by (simp add: ht_wf_def)
  have 1: "concat (buckets ht) = ?A @ buckets ht ! ?i @ ?B"
    using concat_nth_split [OF i] .
  have 2: "\<And>c. concat ((buckets ht)[?i := c]) = ?A @ c @ ?B"
    using concat_list_update [OF i] .
  have 3: "\<forall>e \<in> set ?A \<union> set ?B. key e \<noteq> k"
    using placed_take [OF assms(2), of _ ?i] placed_drop [OF assms(2), of _ ?i] by fastforce
  have 4: "\<forall>e \<in> set (buckets ht ! ?i). bucket_index (key e) (num_buckets ht) = ?i"
    using placed_nth [OF assms(2) i] by blast
  show ?thesis
    using that [OF 1 2 3 4 i] .
qed

subsection \<open>The loops over a chain\<close>

lemma get_chain_map_of: "get_chain k c = map_of (map (\<lambda>e. (key e, val e)) c) k"
  by (induction c) simp_all

lemma update_chain_Not_There: "update_chain h k v c = Not_There \<longleftrightarrow> k \<notin> key ` set c"
  by (induction c) (auto simp: Let_def split: prod.splits bool.splits update.splits)

lemma update_chain_Updated:
  assumes "update_chain h k v c = Updated c' old_mem new_mem h'"
  shows "\<exists>c1 e c2. c = c1 @ e # c2 \<and> key e = k \<and> k \<notin> key ` set c1
           \<and> c' = c1 @ e\<lparr>val := v, value_len := of_nat (length v)\<rparr> # c2
           \<and> old_mem = entry_memory e
           \<and> new_mem = entry_memory (e\<lparr>val := v, value_len := of_nat (length v)\<rparr>)"
  using assms
proof (induction c arbitrary: c')
  case Nil
  then show ?case by simp
next
  case (Cons a c)
  show ?case
  proof (cases "key a = k")
    case True
    then have "c' = a\<lparr>val := v, value_len := of_nat (length v)\<rparr> # c"
      "old_mem = entry_memory a"
      "new_mem = entry_memory (a\<lparr>val := v, value_len := of_nat (length v)\<rparr>)"
      using Cons.prems by (auto simp: Let_def strlen_def split: prod.splits bool.splits)
    then have "a # c = [] @ a # c \<and> key a = k \<and> k \<notin> key ` set []
           \<and> c' = [] @ a\<lparr>val := v, value_len := of_nat (length v)\<rparr> # c
           \<and> old_mem = entry_memory a
           \<and> new_mem = entry_memory (a\<lparr>val := v, value_len := of_nat (length v)\<rparr>)"
      using True by simp
    then show ?thesis by blast
  next
    case False
    then obtain d where d: "update_chain h k v c = Updated d old_mem new_mem h'" "c' = a # d"
      using Cons.prems by (auto split: update.splits)
    obtain c1 e c2 where "c = c1 @ e # c2" "key e = k" "k \<notin> key ` set c1"
        "d = c1 @ e\<lparr>val := v, value_len := of_nat (length v)\<rparr> # c2"
        "old_mem = entry_memory e"
        "new_mem = entry_memory (e\<lparr>val := v, value_len := of_nat (length v)\<rparr>)"
      using Cons.IH [OF d(1)] by blast
    then have "a # c = (a # c1) @ e # c2 \<and> key e = k \<and> k \<notin> key ` set (a # c1)
           \<and> c' = (a # c1) @ e\<lparr>val := v, value_len := of_nat (length v)\<rparr> # c2
           \<and> old_mem = entry_memory e
           \<and> new_mem = entry_memory (e\<lparr>val := v, value_len := of_nat (length v)\<rparr>)"
      using False d(2) by simp
    then show ?thesis by blast
  qed
qed

lemma update_chain_Failed: "update_chain h k v c = Update_Failed h' \<Longrightarrow> k \<in> key ` set c"
  using update_chain_Not_There [of h k v c] by (cases "k \<in> key ` set c") simp_all

lemma delete_chain_None: "delete_chain k c = None \<longleftrightarrow> k \<notin> key ` set c"
  by (induction c) (auto split: option.splits)

lemma delete_chain_Some:
  assumes "delete_chain k c = Some (c', m)"
  shows "\<exists>c1 e c2. c = c1 @ e # c2 \<and> key e = k \<and> k \<notin> key ` set c1
           \<and> c' = c1 @ c2 \<and> m = entry_memory e"
  using assms
proof (induction c arbitrary: c')
  case Nil
  then show ?case by simp
next
  case (Cons a c)
  show ?case
  proof (cases "key a = k")
    case True
    then have "a # c = [] @ a # c \<and> key a = k \<and> k \<notin> key ` set [] \<and> c' = [] @ c
        \<and> m = entry_memory a"
      using Cons.prems by simp
    then show ?thesis by blast
  next
    case False
    then obtain d where d: "delete_chain k c = Some (d, m)" "c' = a # d"
      using Cons.prems by (auto split: option.splits)
    obtain c1 e c2 where "c = c1 @ e # c2" "key e = k" "k \<notin> key ` set c1" "d = c1 @ c2"
        "m = entry_memory e"
      using Cons.IH [OF d(1)] by blast
    then have "a # c = (a # c1) @ e # c2 \<and> key e = k \<and> k \<notin> key ` set (a # c1)
        \<and> c' = (a # c1) @ c2 \<and> m = entry_memory e"
      using False d(2) by simp
    then show ?thesis by blast
  qed
qed

subsection \<open>Rehashing\<close>

lemma mset_concat_cons_update:
  "i < length bs \<Longrightarrow> mset (concat (bs[i := e # bs ! i])) = add_mset e (mset (concat bs))"
proof -
  assume i: "i < length bs"
  have "mset (concat (bs[i := e # bs ! i]))
          = mset (concat (take i bs) @ (e # bs ! i) @ concat (drop (Suc i) bs))"
    by (simp only: concat_list_update [OF i])
  also have "\<dots> = add_mset e (mset (concat (take i bs) @ bs ! i @ concat (drop (Suc i) bs)))"
    by simp
  also have "\<dots> = add_mset e (mset (concat bs))"
    by (simp only: concat_nth_split [OF i, symmetric])
  finally show ?thesis .
qed

lemma rehash_chain_mset:
  assumes "0 < n" "length bs = unat n"
  shows "mset (concat (rehash_chain n c bs)) = mset c + mset (concat bs)"
  using assms(2)
proof (induction c arbitrary: bs)
  case Nil
  then show ?case by simp
next
  case (Cons e c)
  let ?i = "bucket_index (key e) n"
  have i: "?i < length bs"
    using bucket_index_less [OF assms(1)] Cons.prems by simp
  have "mset (concat (rehash_chain n (e # c) bs))
          = mset c + mset (concat (bs[?i := e # bs ! ?i]))"
    using Cons.IH [of "bs[?i := e # bs ! ?i]"] Cons.prems by (simp add: Let_def)
  then show ?case
    by (simp add: mset_concat_cons_update [OF i])
qed

lemma rehash_buckets_mset:
  assumes "0 < n" "length bs = unat n"
  shows "mset (concat (rehash_buckets n cs bs)) = mset (concat cs) + mset (concat bs)"
  using assms(2)
proof (induction cs arbitrary: bs)
  case Nil
  then show ?case by simp
next
  case (Cons c cs)
  have "mset (concat (rehash_buckets n (c # cs) bs))
          = mset (concat cs) + mset (concat (rehash_chain n c bs))"
    using Cons.IH [of "rehash_chain n c bs"] Cons.prems by simp
  then show ?case
    by (simp add: rehash_chain_mset [OF assms(1) Cons.prems])
qed

lemma rehash_chain_placed: "placed n bs \<Longrightarrow> placed n (rehash_chain n c bs)"
proof (induction c arbitrary: bs)
  case Nil
  then show ?case by simp
next
  case (Cons e c)
  let ?i = "bucket_index (key e) n"
  have "placed n (bs[?i := e # bs ! ?i])"
  proof (cases "?i < length bs")
    case True
    have "\<forall>a \<in> set (e # bs ! ?i). bucket_index (key a) n = ?i"
      using placed_nth [OF Cons.prems True] by auto
    then show ?thesis
      using placed_update [OF Cons.prems] by blast
  next
    case False
    then show ?thesis
      using Cons.prems by (simp add: list_update_beyond)
  qed
  then show ?case
    using Cons.IH by (simp add: Let_def)
qed

lemma rehash_buckets_placed: "placed n bs \<Longrightarrow> placed n (rehash_buckets n cs bs)"
  by (induction cs arbitrary: bs) (simp_all add: rehash_chain_placed)

lemma placed_replicate: "placed n (replicate m [])"
  by (simp add: placed_def)

subsection \<open>The map denoted by the entries\<close>

lemma map_of_replace:
  assumes "k \<notin> key ` set P" "key e = k"
  shows "map_of (map (\<lambda>e. (key e, val e)) (P @ e\<lparr>val := v, value_len := l\<rparr> # Q))
           = (map_of (map (\<lambda>e. (key e, val e)) (P @ e # Q)))(k \<mapsto> v)"
proof (rule ext)
  fix x
  have n: "map_of (map (\<lambda>e. (key e, val e)) P) k = None"
    using assms(1) by (simp add: map_of_eq_None_iff image_image)
  show "map_of (map (\<lambda>e. (key e, val e)) (P @ e\<lparr>val := v, value_len := l\<rparr> # Q)) x
           = ((map_of (map (\<lambda>e. (key e, val e)) (P @ e # Q)))(k \<mapsto> v)) x"
    using n assms(2) by (simp add: map_add_def split: option.splits)
qed

lemma map_of_insert:
  assumes "k \<notin> key ` set P" "key e = k" "val e = v"
  shows "map_of (map (\<lambda>e. (key e, val e)) (P @ e # Q))
           = (map_of (map (\<lambda>e. (key e, val e)) (P @ Q)))(k \<mapsto> v)"
proof (rule ext)
  fix x
  have n: "map_of (map (\<lambda>e. (key e, val e)) P) k = None"
    using assms(1) by (simp add: map_of_eq_None_iff image_image)
  show "map_of (map (\<lambda>e. (key e, val e)) (P @ e # Q)) x
           = ((map_of (map (\<lambda>e. (key e, val e)) (P @ Q)))(k \<mapsto> v)) x"
    using n assms(2,3) by (simp add: map_add_def split: option.splits)
qed

lemma map_of_remove:
  assumes "k \<notin> key ` set P" "k \<notin> key ` set Q" "key e = k"
  shows "map_of (map (\<lambda>e. (key e, val e)) (P @ Q))
           = (map_of (map (\<lambda>e. (key e, val e)) (P @ e # Q)))(k := None)"
proof (rule ext)
  fix x
  have n: "map_of (map (\<lambda>e. (key e, val e)) P) k = None"
    "map_of (map (\<lambda>e. (key e, val e)) Q) k = None"
    using assms(1,2) by (simp_all add: map_of_eq_None_iff image_image)
  show "map_of (map (\<lambda>e. (key e, val e)) (P @ Q)) x
           = ((map_of (map (\<lambda>e. (key e, val e)) (P @ e # Q)))(k := None)) x"
    using n assms(3) by (simp add: map_add_def split: option.splits)
qed

lemma dom_abs_map: "dom (abs_map ht) = key ` set (entries ht)"
  by (simp add: abs_map_def dom_map_of_conv_image_fst image_image)

lemma abs_map_Some_iff:
  assumes "distinct (map key (entries ht))"
  shows "abs_map ht k = Some v \<longleftrightarrow> (\<exists>e \<in> set (entries ht). key e = k \<and> val e = v)"
proof -
  have "distinct (map fst (map (\<lambda>e. (key e, val e)) (entries ht)))"
    using assms by (simp add: comp_def)
  then have "abs_map ht k = Some v \<longleftrightarrow> (k, v) \<in> set (map (\<lambda>e. (key e, val e)) (entries ht))"
    unfolding abs_map_def by (rule map_of_eq_Some_iff)
  then show ?thesis
    by auto
qed

lemma ht_get_abs_map:
  assumes "ht_wf ht" "placed (num_buckets ht) (buckets ht)"
  shows "ht_get ht k = abs_map ht k"
proof -
  obtain A B where
    1: "concat (buckets ht) = A @ buckets ht ! bucket_index k (num_buckets ht) @ B"
    and 3: "\<forall>e \<in> set A \<union> set B. key e \<noteq> k"
    using bucket_frame [OF assms, of k] by metis
  have n: "map_of (map (\<lambda>e. (key e, val e)) A) k = None"
    "map_of (map (\<lambda>e. (key e, val e)) B) k = None"
    using 3 by (auto simp: map_of_eq_None_iff image_image)
  show ?thesis
    using n by (simp add: ht_get_def get_chain_map_of abs_map_def entries_def 1 map_add_def
        split: option.splits)
qed

subsection \<open>The invariant is established by \<open>ht_create\<close> and kept by every operation\<close>

lemma entry_memory_ok: "entry_ok e \<Longrightarrow> entry_memory e = accounted_size e"
  by (simp add: entry_ok_def entry_memory_def accounted_size_def)

lemma entry_ok_update: "entry_ok e \<Longrightarrow> entry_ok (e\<lparr>val := v, value_len := of_nat (length v)\<rparr>)"
  by (simp add: entry_ok_def)

lemma sum_list_map_mset:
  fixes f :: "'a \<Rightarrow> 64 word"
  assumes "mset xs = mset ys"
  shows "sum_list (map f xs) = sum_list (map f ys)"
proof -
  have "sum_mset (image_mset f (mset xs)) = sum_mset (image_mset f (mset ys))"
    using assms by simp
  then show ?thesis
    by (simp only: mset_map [symmetric] sum_mset_sum_list)
qed

lemma ht_create_cases:
  assumes "ht_create h n = (Some ht, h')"
  shows "ht = \<lparr>buckets = replicate (unat (if 0 < n then n else INITIAL_BUCKETS)) [],
               num_buckets = (if 0 < n then n else INITIAL_BUCKETS),
               num_entries = 0,
               memory_used = sizeof_HashTable + (if 0 < n then n else INITIAL_BUCKETS) * sizeof_ptr\<rparr>
         \<and> uint (if 0 < n then n else INITIAL_BUCKETS) * uint sizeof_ptr < 2 ^ 64"
  using assms calloc_True_bound [of _ "if 0 < n then n else INITIAL_BUCKETS" sizeof_ptr]
  by (auto simp: ht_create_def Let_def split: prod.splits bool.splits if_splits)

lemma ht_create_inv:
  assumes "ht_create h n = (Some ht, h')"
  shows "ht_inv ht" "entries ht = []" "num_buckets ht = (if 0 < n then n else INITIAL_BUCKETS)"
proof -
  let ?n = "if 0 < n then n else INITIAL_BUCKETS"
  note c = ht_create_cases [OF assms]
  have pos: "0 < ?n"
    by (simp add: INITIAL_BUCKETS_def)
  show e: "entries ht = []"
    using c by (simp add: entries_def)
  show "num_buckets ht = ?n"
    using c by simp
  have "ht_wf ht"
    using c pos by (simp add: ht_wf_def)
  moreover have "placed (num_buckets ht) (buckets ht)"
    using c by (simp add: placed_replicate)
  moreover have "memory_used ht = table_overhead ht"
    using c by (simp add: table_overhead_def)
  moreover have "num_entries ht = 0"
    using c by simp
  ultimately show "ht_inv ht"
    by (simp add: ht_inv_def e)
qed

lemma ht_resize_inv:
  assumes inv: "ht_inv ht" and r: "ht_resize h ht = (r, ht', h')"
  shows "ht_inv ht'" "mset (entries ht') = mset (entries ht)" "num_entries ht' = num_entries ht"
proof -
  have wf: "ht_wf ht"
    using inv by (simp add: ht_inv_def)
  have "ht_inv ht' \<and> mset (entries ht') = mset (entries ht) \<and> num_entries ht' = num_entries ht"
    using r
  proof (cases rule: ht_resize_cases)
    case failed
    then show ?thesis using inv by simp
  next
    case resized
    let ?n = "num_buckets ht * 2"
    have wf': "ht_wf ht'"
      using ht_resize_wf [OF wf r] .
    then have pos: "0 < ?n"
      by (simp add: ht_wf_def resized(3))
    have m: "mset (entries ht') = mset (entries ht)"
      using rehash_buckets_mset [OF pos, of "replicate (unat ?n) []" "buckets ht"]
      by (simp add: entries_def resized(3))
    have p: "placed (num_buckets ht') (buckets ht')"
      using rehash_buckets_placed [OF placed_replicate [of ?n "unat ?n"], of "buckets ht"]
      by (simp add: resized(3))
    have "mset (map key (entries ht')) = mset (map key (entries ht))"
      using m by simp
    then have d: "distinct (map key (entries ht'))"
      using inv mset_eq_imp_distinct_iff [of "map key (entries ht')" "map key (entries ht)"]
      by (simp add: ht_inv_def)
    have s: "set (entries ht') = set (entries ht)"
      using m by (rule mset_eq_setD)
    have l: "length (entries ht') = length (entries ht)"
      using m by (rule mset_eq_length)
    have ne: "num_entries ht' = num_entries ht"
      by (simp add: resized(3))
    have sum: "sum_list (map accounted_size (entries ht')) = sum_list (map accounted_size (entries ht))"
      using m by (rule sum_list_map_mset)
    have m0: "memory_used ht = table_overhead ht + sum_list (map accounted_size (entries ht))"
      using inv by (simp add: ht_inv_def)
    have m1: "memory_used ht'
                = memory_used ht - num_buckets ht * sizeof_ptr + num_buckets ht * 2 * sizeof_ptr"
      and m2: "table_overhead ht' = sizeof_HashTable + num_buckets ht * 2 * sizeof_ptr"
      by (simp_all add: resized(3) table_overhead_def)
    have mem: "memory_used ht' = table_overhead ht' + sum_list (map accounted_size (entries ht'))"
      unfolding m1 m2 sum m0 by (simp add: table_overhead_def)
    have "ht_inv ht'"
      using wf' p d s l ne mem inv by (simp add: ht_inv_def)
    then show ?thesis
      using m ne by simp
  qed
  then show "ht_inv ht'" "mset (entries ht') = mset (entries ht)" "num_entries ht' = num_entries ht"
    by simp_all
qed

lemma ht_set_entry_inv:
  assumes inv: "ht_inv ht" and s: "ht_set_entry h ht k v = (r, ht', h')"
  shows "ht_inv ht' \<and> num_buckets ht' = num_buckets ht
    \<and> (r = 0 \<or> r = - 1 \<and> ht' = ht)
    \<and> (r = 0 \<longrightarrow> abs_map ht' = (abs_map ht)(k \<mapsto> v))
    \<and> num_entries ht'
         = (if r = 0 \<and> abs_map ht k = None then num_entries ht + 1 else num_entries ht)
    \<and> (r = 0 \<longrightarrow>
          memory_used ht'
            = (case abs_map ht k of
                 None \<Rightarrow>
                   memory_used ht + (sizeof_HashEntry + of_nat (length k) + 1 + of_nat (length v) + 1)
               | Some v0 \<Rightarrow> memory_used ht - of_nat (length v0) + of_nat (length v)))"
proof -
  let ?i = "bucket_index k (num_buckets ht)"
  let ?c = "buckets ht ! ?i"
  have wf: "ht_wf ht" and pl: "placed (num_buckets ht) (buckets ht)"
    and di: "distinct (map key (entries ht))"
    and ok: "\<forall>e \<in> set (entries ht). entry_ok e"
    and ne: "num_entries ht = of_nat (length (entries ht))"
    and mu: "memory_used ht = table_overhead ht + sum_list (map accounted_size (entries ht))"
    using inv by (simp_all add: ht_inv_def)
  obtain A B where
    f1: "concat (buckets ht) = A @ ?c @ B"
    and f2: "\<And>c. concat ((buckets ht)[?i := c]) = A @ c @ B"
    and f3: "\<forall>e \<in> set A \<union> set B. key e \<noteq> k"
    and f4: "\<forall>e \<in> set ?c. bucket_index (key e) (num_buckets ht) = ?i"
    and f5: "?i < length (buckets ht)"
    using bucket_frame [OF wf pl, of k] by metis
  have kA: "k \<notin> key ` set A" and kB: "k \<notin> key ` set B"
    using f3 by auto
  show ?thesis
  proof (cases "update_chain h k v ?c")
    case (Updated c' old_mem new_mem h1)
    obtain c1 e c2 where c: "?c = c1 @ e # c2" and ke: "key e = k" and k1: "k \<notin> key ` set c1"
      and c': "c' = c1 @ e\<lparr>val := v, value_len := of_nat (length v)\<rparr> # c2"
      and om: "old_mem = entry_memory e"
      and nm: "new_mem = entry_memory (e\<lparr>val := v, value_len := of_nat (length v)\<rparr>)"
      using update_chain_Updated [OF Updated] by blast
    let ?e' = "e\<lparr>val := v, value_len := of_nat (length v)\<rparr>"
    have r: "r = 0"
      and ht': "ht' = ht\<lparr>buckets := (buckets ht)[?i := c'],
                        memory_used := memory_used ht - old_mem + new_mem\<rparr>"
      using s Updated by (simp_all add: ht_set_entry_def Let_def)
    have fl: "num_entries ht' = num_entries ht" "num_buckets ht' = num_buckets ht"
      "buckets ht' = (buckets ht)[?i := c']"
      "memory_used ht' = memory_used ht - old_mem + new_mem"
      by (simp_all add: ht')
    have en: "entries ht = A @ c1 @ e # c2 @ B"
      using f1 c by (simp add: entries_def)
    have en': "entries ht' = A @ c1 @ ?e' # c2 @ B"
      using f2 [of c'] c' by (simp add: entries_def fl)
    have oke: "entry_ok e"
      using ok by (simp add: en)
    have oke': "entry_ok ?e'"
      using entry_ok_update [OF oke] .
    have wf': "ht_wf ht'"
      using wf by (simp add: ht_wf_def fl)
    have "\<forall>a \<in> set c'. bucket_index (key a) (num_buckets ht) = ?i"
      using f4 by (auto simp: c c')
    then have pl': "placed (num_buckets ht') (buckets ht')"
      using placed_update [OF pl] by (simp add: fl)
    have di': "distinct (map key (entries ht'))"
      using di by (simp add: en en')
    have ok': "\<forall>a \<in> set (entries ht'). entry_ok a"
      using ok oke' by (simp add: en en')
    have ne': "num_entries ht' = of_nat (length (entries ht'))"
      using ne by (simp add: en en' fl)
    have md: "memory_used ht' = memory_used ht - accounted_size e + accounted_size ?e'"
      by (simp add: fl om nm entry_memory_ok [OF oke] entry_memory_ok [OF oke'])
    then have mu': "memory_used ht' = table_overhead ht' + sum_list (map accounted_size (entries ht'))"
      using mu by (simp add: en en' table_overhead_def fl(2))
    have "k \<notin> key ` set (A @ c1)"
      using kA k1 by auto
    then have ab: "abs_map ht' = (abs_map ht)(k \<mapsto> v)"
      using map_of_replace [where k = k and P = "A @ c1" and e = e and v = v
          and l = "of_nat (length v)" and Q = "c2 @ B"] ke
      by (simp add: abs_map_def en en')
    have "e \<in> set (entries ht)"
      by (simp add: en)
    then have old: "abs_map ht k = Some (val e)"
      using abs_map_Some_iff [OF di, of k "val e"] ke by blast
    have "memory_used ht' = memory_used ht - of_nat (length (val e)) + of_nat (length v)"
      by (simp add: md accounted_size_def)
    then show ?thesis
      using wf' pl' di' ok' ne' mu' ab r old by (simp add: ht_inv_def fl(1,2))
  next
    case (Update_Failed h1)
    then have "r = - 1" "ht' = ht"
      using s by (simp_all add: ht_set_entry_def Let_def)
    then show ?thesis
      using inv by simp
  next
    case Not_There
    then have kc: "k \<notin> key ` set ?c"
      by (simp add: update_chain_Not_There)
    show ?thesis
    proof (cases "fst (entry_create h k v)")
      case None
      then have "r = - 1" "ht' = ht"
        using s Not_There by (auto simp: ht_set_entry_def Let_def split: prod.splits)
      then show ?thesis
        using inv by simp
    next
      case (Some e)
      then have ec: "entry_create h k v = (Some e, snd (entry_create h k v))"
        by (cases "entry_create h k v") simp
      have e: "e = \<lparr>key = k, val = v, key_len = of_nat (length k), value_len = of_nat (length v)\<rparr>"
        using entry_create_Some [OF ec] .
      have r: "r = 0"
        and ht': "ht' = ht\<lparr>buckets := (buckets ht)[?i := e # ?c],
                          num_entries := num_entries ht + 1,
                          memory_used := memory_used ht + entry_memory e\<rparr>"
        using s Not_There ec by (auto simp: ht_set_entry_def Let_def split: prod.splits)
      have fl: "num_entries ht' = num_entries ht + 1" "num_buckets ht' = num_buckets ht"
        "buckets ht' = (buckets ht)[?i := e # ?c]"
        "memory_used ht' = memory_used ht + entry_memory e"
        by (simp_all add: ht')
      have en: "entries ht = A @ ?c @ B"
        using f1 by (simp add: entries_def)
      have en': "entries ht' = A @ e # ?c @ B"
        using f2 [of "e # ?c"] by (simp add: entries_def fl)
      have oke: "entry_ok e"
        by (simp add: e entry_ok_def)
      have wf': "ht_wf ht'"
        using wf by (simp add: ht_wf_def fl)
      have "\<forall>a \<in> set (e # ?c). bucket_index (key a) (num_buckets ht) = ?i"
        using f4 by (simp add: e)
      then have pl': "placed (num_buckets ht') (buckets ht')"
        using placed_update [OF pl] by (simp add: fl)
      have "distinct (map key (A @ ?c @ B))"
        using di by (simp only: en)
      then have di': "distinct (map key (entries ht'))"
        using kA kB kc by (auto simp: en' e)
      have ok': "\<forall>a \<in> set (entries ht'). entry_ok a"
        using ok oke by (simp add: en en')
      have ne': "num_entries ht' = of_nat (length (entries ht'))"
        using ne by (simp add: en en' fl)
      have mu': "memory_used ht' = table_overhead ht' + sum_list (map accounted_size (entries ht'))"
        using mu by (simp add: en en' table_overhead_def fl entry_memory_ok [OF oke])
      have ab: "abs_map ht' = (abs_map ht)(k \<mapsto> v)"
        using map_of_insert [of k A e v "?c @ B"] kA
        by (simp add: abs_map_def en en' e)
      have "k \<notin> dom (abs_map ht)"
        using kA kB kc by (auto simp: dom_abs_map en)
      then have "abs_map ht k = None"
        by auto
      moreover have "memory_used ht'
          = memory_used ht + (sizeof_HashEntry + of_nat (length k) + 1 + of_nat (length v) + 1)"
        by (simp add: fl(4) entry_memory_def e)
      ultimately show ?thesis
        using wf' pl' di' ok' ne' mu' ab r by (simp add: ht_inv_def fl(1,2))
    qed
  qed
qed

lemma ht_delete_inv:
  assumes inv: "ht_inv ht" and s: "ht_delete ht k = (r, ht')"
  shows "ht_inv ht' \<and> num_buckets ht' = num_buckets ht
    \<and> (r = 0 \<and> abs_map ht k \<noteq> None \<and> abs_map ht' = (abs_map ht)(k := None)
           \<and> num_entries ht' = num_entries ht - 1
       \<or> r = - 1 \<and> abs_map ht k = None \<and> ht' = ht)"
proof -
  let ?i = "bucket_index k (num_buckets ht)"
  let ?c = "buckets ht ! ?i"
  have wf: "ht_wf ht" and pl: "placed (num_buckets ht) (buckets ht)"
    and di: "distinct (map key (entries ht))"
    and ok: "\<forall>e \<in> set (entries ht). entry_ok e"
    and ne: "num_entries ht = of_nat (length (entries ht))"
    and mu: "memory_used ht = table_overhead ht + sum_list (map accounted_size (entries ht))"
    using inv by (simp_all add: ht_inv_def)
  obtain A B where
    f1: "concat (buckets ht) = A @ ?c @ B"
    and f2: "\<And>c. concat ((buckets ht)[?i := c]) = A @ c @ B"
    and f3: "\<forall>e \<in> set A \<union> set B. key e \<noteq> k"
    and f4: "\<forall>e \<in> set ?c. bucket_index (key e) (num_buckets ht) = ?i"
    and f5: "?i < length (buckets ht)"
    using bucket_frame [OF wf pl, of k] by metis
  have kA: "k \<notin> key ` set A" and kB: "k \<notin> key ` set B"
    using f3 by auto
  show ?thesis
  proof (cases "delete_chain k ?c")
    case None
    then have kc: "k \<notin> key ` set ?c"
      by (simp add: delete_chain_None)
    have "r = - 1" "ht' = ht"
      using s None by (simp_all add: ht_delete_def Let_def)
    moreover have "k \<notin> dom (abs_map ht)"
      using kA kB kc f1 by (auto simp: dom_abs_map entries_def)
    then have "abs_map ht k = None"
      by auto
    ultimately show ?thesis
      using inv by simp
  next
    case (Some p)
    obtain c' m where p: "p = (c', m)"
      by (cases p)
    obtain c1 e c2 where c: "?c = c1 @ e # c2" and ke: "key e = k" and k1: "k \<notin> key ` set c1"
      and c': "c' = c1 @ c2" and m: "m = entry_memory e"
      using delete_chain_Some [of k ?c c' m] Some p by blast
    have r: "r = 0"
      and ht': "ht' = ht\<lparr>buckets := (buckets ht)[?i := c'],
                        memory_used := memory_used ht - m,
                        num_entries := num_entries ht - 1\<rparr>"
      using s Some p by (simp_all add: ht_delete_def Let_def)
    have fl: "num_entries ht' = num_entries ht - 1" "num_buckets ht' = num_buckets ht"
      "buckets ht' = (buckets ht)[?i := c']"
      "memory_used ht' = memory_used ht - m"
      by (simp_all add: ht')
    have en: "entries ht = A @ c1 @ e # c2 @ B"
      using f1 c by (simp add: entries_def)
    have en': "entries ht' = A @ c1 @ c2 @ B"
      using f2 [of c'] c' by (simp add: entries_def fl)
    have oke: "entry_ok e"
      using ok by (simp add: en)
    have wf': "ht_wf ht'"
      using wf by (simp add: ht_wf_def fl)
    have "\<forall>a \<in> set c'. bucket_index (key a) (num_buckets ht) = ?i"
      using f4 by (auto simp: c c')
    then have pl': "placed (num_buckets ht') (buckets ht')"
      using placed_update [OF pl] by (simp add: fl)
    have di': "distinct (map key (entries ht'))"
      using di by (auto simp: en en')
    have ok': "\<forall>a \<in> set (entries ht'). entry_ok a"
      using ok by (simp add: en en')
    have ne': "num_entries ht' = of_nat (length (entries ht'))"
      using ne by (simp add: en en' fl)
    have mu': "memory_used ht' = table_overhead ht' + sum_list (map accounted_size (entries ht'))"
      using mu by (simp add: en en' table_overhead_def fl m entry_memory_ok [OF oke])
    have k2: "k \<notin> key ` set (c2 @ B)"
      using di kB ke by (auto simp: en)
    have "k \<notin> key ` set (A @ c1)"
      using kA k1 by auto
    then have ab: "abs_map ht' = (abs_map ht)(k := None)"
      using map_of_remove [of k "A @ c1" "c2 @ B" e] k2 ke
      by (simp add: abs_map_def en en')
    have "k \<in> dom (abs_map ht)"
      using ke by (auto simp: dom_abs_map en)
    then have "abs_map ht k \<noteq> None"
      by auto
    then show ?thesis
      using wf' pl' di' ok' ne' mu' ab r by (simp add: ht_inv_def fl(1,2))
  qed
qed

lemma abs_map_mset:
  assumes "distinct (map key (entries ht))" "mset (entries ht') = mset (entries ht)"
  shows "abs_map ht' = abs_map ht"
proof (rule ext)
  fix k
  have "mset (map key (entries ht')) = mset (map key (entries ht))"
    using assms(2) by simp
  then have d': "distinct (map key (entries ht'))"
    using assms(1) mset_eq_imp_distinct_iff [of "map key (entries ht')" "map key (entries ht)"]
    by simp
  have s: "set (entries ht') = set (entries ht)"
    using assms(2) by (rule mset_eq_setD)
  have iff: "abs_map ht' k = Some v \<longleftrightarrow> abs_map ht k = Some v" for v
    by (simp add: abs_map_Some_iff [OF d'] abs_map_Some_iff [OF assms(1)] s)
  show "abs_map ht' k = abs_map ht k"
  proof (cases "abs_map ht k")
    case None
    then have "abs_map ht' k \<noteq> Some v" for v
      by (simp add: iff)
    then have "abs_map ht' k = None"
      by (cases "abs_map ht' k") blast+
    then show ?thesis
      by (simp add: None)
  next
    case (Some v)
    then show ?thesis
      by (simp add: iff)
  qed
qed

lemma ht_resize_abs_map:
  assumes "ht_inv ht" "ht_resize h ht = (r, ht', h')"
  shows "abs_map ht' = abs_map ht"
  using abs_map_mset [OF _ ht_resize_inv(2) [OF assms]] assms(1) by (simp add: ht_inv_def)

lemma ht_resize_num_buckets:
  assumes "ht_inv ht" "ht_resize h ht = (r, ht', h')"
  shows "r = - 1 \<and> num_buckets ht' = num_buckets ht
       \<or> r = 0 \<and> num_buckets ht' = num_buckets ht * 2
           \<and> unat (num_buckets ht') = 2 * unat (num_buckets ht)"
  using assms(2)
proof (cases rule: ht_resize_cases)
  case failed
  then show ?thesis by simp
next
  case resized
  have "ht_wf ht"
    using assms(1) by (simp add: ht_inv_def)
  then show ?thesis
    using ht_wf_double [of ht] by (simp add: resized(1,3))
qed

lemma ht_resize_memory:
  assumes "ht_inv ht" "ht_resize h ht = (r, ht', h')"
  shows "memory_used ht' - table_overhead ht' = memory_used ht - table_overhead ht"
proof -
  have "sum_list (map accounted_size (entries ht')) = sum_list (map accounted_size (entries ht))"
    using ht_resize_inv(2) [OF assms] by (rule sum_list_map_mset)
  then show ?thesis
    using assms(1) ht_resize_inv(1) [OF assms] by (simp add: ht_inv_def)
qed

lemma ht_set_inv:
  assumes inv: "ht_inv ht" and s: "ht_set h ht k v = (r, ht', h')"
  shows "ht_inv ht' \<and> (r = 0 \<or> r = - 1)
    \<and> abs_map ht' = (if r = 0 then (abs_map ht)(k \<mapsto> v) else abs_map ht)
    \<and> num_entries ht'
         = (if r = 0 \<and> abs_map ht k = None then num_entries ht + 1 else num_entries ht)
    \<and> (num_buckets ht' = num_buckets ht
        \<or> num_buckets ht' = num_buckets ht * 2
           \<and> unat (num_buckets ht') = 2 * unat (num_buckets ht))"
proof (cases "length k \<le> 256 \<and> length v \<le> 4096")
  case False
  then have "r = - 1" "ht' = ht"
    using s by (auto simp: ht_set_def MAX_KEY_SIZE_def MAX_VALUE_SIZE_def strlen_def)
  then show ?thesis
    using inv by simp
next
  case True
  then have "length k \<le> 256" "length v \<le> 4096"
    by simp_all
  then show ?thesis
    using s
  proof (cases rule: ht_set_cases)
    case (resize r1 ht1 h1)
    have i1: "ht_inv ht1" and n1: "num_entries ht1 = num_entries ht"
      using ht_resize_inv [OF inv resize(2)] by simp_all
    have a1: "abs_map ht1 = abs_map ht"
      using ht_resize_abs_map [OF inv resize(2)] .
    show ?thesis
      using ht_set_entry_inv [OF i1 resize(3)] ht_resize_num_buckets [OF inv resize(2)]
      by (auto simp: a1 n1)
  next
    case plain
    show ?thesis
      using ht_set_entry_inv [OF inv plain(2)] by auto
  qed
qed

lemma apply_op_inv:
  assumes inv: "ht_inv ht" and s: "apply_op h ht x = (r, ht', h')"
  shows "ht_inv ht' \<and> dom (abs_map ht') = live_keys (dom (abs_map ht)) [x] [r]
    \<and> (num_buckets ht' = num_buckets ht
        \<or> num_buckets ht' = num_buckets ht * 2
           \<and> unat (num_buckets ht') = 2 * unat (num_buckets ht))"
proof (cases x)
  case (Set k v)
  then show ?thesis
    using ht_set_inv [OF inv, of h k v r ht' h'] s by auto
next
  case (Delete k)
  then have d: "ht_delete ht k = (r, ht')"
    using s by (auto split: prod.splits)
  note di = ht_delete_inv [OF inv d]
  have "dom (abs_map ht') = live_keys (dom (abs_map ht)) [Delete k] [r]"
  proof (cases "r = 0")
    case True
    then have "abs_map ht' = (abs_map ht)(k := None)"
      using di by simp
    then show ?thesis
      using True by simp
  next
    case False
    then have "ht' = ht"
      using di by simp
    then show ?thesis
      using False by simp
  qed
  then show ?thesis
    using di Delete by simp
next
  case Resize
  then have r: "ht_resize h ht = (r, ht', h')"
    using s by simp
  show ?thesis
    using ht_resize_inv(1) [OF inv r] ht_resize_abs_map [OF inv r]
      ht_resize_num_buckets [OF inv r] Resize
    by auto
qed

lemma live_keys_step:
  "live_keys L (x # xs) (r # rs) = live_keys (live_keys L [x] [r]) xs rs"
  by (cases x) simp_all

lemma power_of_two_double: "power_of_two n \<Longrightarrow> power_of_two (2 * n)"
proof -
  assume "power_of_two n"
  then obtain j where "n = 2 ^ j"
    by (auto simp: power_of_two_def)
  then have "2 * n = 2 ^ Suc j"
    by simp
  then show ?thesis
    unfolding power_of_two_def by blast
qed

lemma run_inv:
  assumes "ht_inv ht" "run h ht xs = (rs, ht', h')"
  shows "ht_inv ht' \<and> length rs = length xs
    \<and> dom (abs_map ht') = live_keys (dom (abs_map ht)) xs rs
    \<and> (power_of_two (unat (num_buckets ht)) \<longrightarrow> power_of_two (unat (num_buckets ht')))"
  using assms
proof (induction xs arbitrary: h ht rs)
  case Nil
  then show ?case by simp
next
  case (Cons x xs)
  obtain r ht1 h1 where a: "apply_op h ht x = (r, ht1, h1)"
    by (cases "apply_op h ht x") auto
  obtain rs1 where b: "run h1 ht1 xs = (rs1, ht', h')" and rs: "rs = r # rs1"
    using Cons.prems(2) a by (auto split: prod.splits)
  note step = apply_op_inv [OF Cons.prems(1) a]
  have i1: "ht_inv ht1"
    using step by simp
  note rest = Cons.IH [OF i1 b]
  have "power_of_two (unat (num_buckets ht)) \<longrightarrow> power_of_two (unat (num_buckets ht1))"
    using step power_of_two_double [of "unat (num_buckets ht)"] by auto
  moreover have "dom (abs_map ht') = live_keys (dom (abs_map ht)) (x # xs) rs"
    using step rest by (simp add: rs live_keys_step [of _ x xs r rs1])
  ultimately show ?case
    using rest by (simp add: rs)
qed

subsection \<open>The sample run, evaluated\<close>

lemma sample_create:
  "ht_create [] 4
     = (Some \<lparr>buckets = [[], [], [], []], num_buckets = 4, num_entries = 0, memory_used = 64\<rparr>, [])"
  by code_simp

lemma sample_run:
  "run [] \<lparr>buckets = [[], [], [], []], num_buckets = 4, num_entries = 0, memory_used = 64\<rparr>
       sample_ops
     = ([0, 0, 0, 0, - 1, 0, 0],
        \<lparr>buckets =
           [[\<lparr>key = ''c'', val = ''4'', key_len = 1, value_len = 1\<rparr>], [], [], [], [], [],
            [\<lparr>key = ''a'', val = ''333'', key_len = 1, value_len = 3\<rparr>], []],
         num_buckets = 8, num_entries = 2, memory_used = 186\<rparr>,
        [])"
  by code_simp

lemma sample_store_eq:
  "sample_store
     = \<lparr>buckets =
          [[\<lparr>key = ''c'', val = ''4'', key_len = 1, value_len = 1\<rparr>], [], [], [], [], [],
           [\<lparr>key = ''a'', val = ''333'', key_len = 1, value_len = 3\<rparr>], []],
        num_buckets = 8, num_entries = 2, memory_used = 186\<rparr>"
  by (simp add: sample_store_def sample_create sample_run)

lemma sample_set:
  "ht_set [] sample_store ''a'' ''55555''
     = (0,
        \<lparr>buckets =
           [[\<lparr>key = ''c'', val = ''4'', key_len = 1, value_len = 1\<rparr>], [], [], [], [], [],
            [\<lparr>key = ''a'', val = ''55555'', key_len = 1, value_len = 5\<rparr>], []],
         num_buckets = 8, num_entries = 2, memory_used = 188\<rparr>,
        [])"
  unfolding sample_store_eq by code_simp

subsection \<open>The invariants after every sequence of operations\<close>

lemma created_run_inv:
  assumes "ht_create h n = (Some ht0, h0)" "run h0 ht0 xs = (rs, ht, h1)"
  shows "ht_inv ht" "dom (abs_map ht) = live_keys {} xs rs" "length rs = length xs"
proof -
  have "dom (abs_map ht0) = {}"
    using ht_create_inv(2) [OF assms(1)] by (simp add: dom_abs_map)
  then show "ht_inv ht" "dom (abs_map ht) = live_keys {} xs rs" "length rs = length xs"
    using run_inv [OF ht_create_inv(1) [OF assms(1)] assms(2)] by simp_all
qed

text \<open>
  C1. After \<open>ht_create\<close> and any sequence of sets (inserting or updating), deletes and
  resizes, \<open>memory_used\<close> is the overhead of the table, \<open>sizeof(HashTable)\<close> plus
  \<open>num_buckets\<close> pointers, plus the sum over the entries of the store of the node size,
  the key length plus one and the value length plus one, in the arithmetic of \<open>size_t\<close>.
  Every operation of the model updates the field by a difference, as the code does.
\<close>

theorem memory_accounting:
  assumes "ht_create h n = (Some ht0, h0)" "run h0 ht0 xs = (rs, ht, h1)"
  shows "memory_used ht
           = sizeof_HashTable + num_buckets ht * sizeof_ptr
             + (\<Sum>e\<leftarrow>entries ht.
                  sizeof_HashEntry + of_nat (length (key e)) + 1 + of_nat (length (val e)) + 1)"
proof -
  have "ht_inv ht"
    using created_run_inv(1) [OF assms] .
  then have "memory_used ht = table_overhead ht + sum_list (map accounted_size (entries ht))"
    by (simp add: ht_inv_def)
  then show ?thesis
    by (simp add: table_overhead_def accounted_size_def [abs_def])
qed

theorem memory_accounting_witness:
  "memory_used sample_store
     = sizeof_HashTable + num_buckets sample_store * sizeof_ptr
       + (\<Sum>e\<leftarrow>entries sample_store.
            sizeof_HashEntry + of_nat (length (key e)) + 1 + of_nat (length (val e)) + 1)
   \<and> entries sample_store
       = [\<lparr>key = ''c'', val = ''4'', key_len = 1, value_len = 1\<rparr>,
          \<lparr>key = ''a'', val = ''333'', key_len = 1, value_len = 3\<rparr>]
   \<and> num_buckets sample_store = 8
   \<and> memory_used sample_store = 186"
  using memory_accounting [OF sample_create sample_run]
  by (simp add: sample_store_eq entries_def)

text \<open>
  C8. After \<open>ht_create\<close> and any sequence of sets, deletes and resizes, no two entries of
  the store hold the same key.
\<close>

theorem no_duplicate_keys:
  assumes "ht_create h n = (Some ht0, h0)" "run h0 ht0 xs = (rs, ht, h1)"
  shows "distinct (map key (entries ht))"
  using created_run_inv(1) [OF assms] by (simp add: ht_inv_def)

theorem no_duplicate_keys_witness:
  "distinct (map key (entries sample_store)) \<and> map key (entries sample_store) = [''c'', ''a'']"
  using no_duplicate_keys [OF sample_create sample_run]
  by (simp add: sample_store_eq entries_def)

text \<open>
  C9, as amended. \<open>ht_create\<close> takes the bucket count it is given, 64 when it is given 0.
  When that count is a power of two, the bucket count is a power of two after every
  sequence of sets, deletes and resizes.
\<close>

theorem num_buckets_power_of_two:
  assumes "ht_create h n = (Some ht0, h0)" "n = 0 \<or> power_of_two (unat n)"
    "run h0 ht0 xs = (rs, ht, h1)"
  shows "num_buckets ht0 = (if n = 0 then 64 else n) \<and> power_of_two (unat (num_buckets ht))"
proof -
  have n0: "num_buckets ht0 = (if n = 0 then 64 else n)"
    using ht_create_inv(3) [OF assms(1)] by (simp add: INITIAL_BUCKETS_def word_greater_zero_iff)
  have "(64 :: nat) = 2 ^ 6"
    by simp
  then have "power_of_two 64"
    unfolding power_of_two_def by blast
  then have "power_of_two (unat (num_buckets ht0))"
    using assms(2) by (auto simp: n0)
  then show ?thesis
    using run_inv [OF ht_create_inv(1) [OF assms(1)] assms(3)] n0 by simp
qed

theorem num_buckets_power_of_two_witness:
  "num_buckets (the (fst (ht_create [] 0))) = 64
   \<and> power_of_two (unat (num_buckets (the (fst (ht_create [] 0)))))
   \<and> power_of_two (unat (num_buckets sample_store)) \<and> num_buckets sample_store = 8"
proof -
  have c0: "ht_create [] 0 = (Some (the (fst (ht_create [] 0))), [])"
    by code_simp
  have r0: "run [] (the (fst (ht_create [] 0))) [] = ([], the (fst (ht_create [] 0)), [])"
    by simp
  have "(4 :: nat) = 2 ^ 2"
    by simp
  then have "power_of_two 4"
    unfolding power_of_two_def by blast
  then have p: "power_of_two (unat (4 :: 64 word))"
    by simp
  have a1: "num_buckets (the (fst (ht_create [] 0))) = 64"
    using num_buckets_power_of_two [OF c0 _ r0] by simp
  have a2: "power_of_two (unat (num_buckets (the (fst (ht_create [] 0)))))"
    using num_buckets_power_of_two [OF c0 _ r0] by blast
  have b: "power_of_two (unat (num_buckets sample_store))"
    using num_buckets_power_of_two [OF sample_create _ sample_run] p
    by (simp add: sample_store_eq)
  show ?thesis
    using a1 a2 b by (simp add: sample_store_eq)
qed

text \<open>
  Without the condition on the initial count the property fails: \<open>ht_create(3)\<close>
  succeeds and its store has 3 buckets.
\<close>

theorem num_buckets_power_of_two_counterexample:
  "ht_create [] 3
     = (Some \<lparr>buckets = [[], [], []], num_buckets = 3, num_entries = 0, memory_used = 56\<rparr>, [])
   \<and> \<not> power_of_two (unat (num_buckets (the (fst (ht_create [] 3)))))"
proof -
  have c: "ht_create [] 3
     = (Some \<lparr>buckets = [[], [], []], num_buckets = 3, num_entries = 0, memory_used = 56\<rparr>, [])"
    by code_simp
  have "(3 :: nat) \<noteq> 2 ^ j" for j
  proof (cases j)
    case 0
    then show ?thesis by simp
  next
    case (Suc i)
    have "even ((2 :: nat) ^ Suc i)"
      by simp
    moreover have "odd (3 :: nat)"
      by simp
    ultimately show ?thesis
      using Suc by metis
  qed
  then have "\<not> power_of_two 3"
    by (simp add: power_of_two_def)
  then show ?thesis
    using c by simp
qed

subsection \<open>The entry count\<close>

lemma live_keys_card:
  "finite L \<Longrightarrow> finite (live_keys L xs rs) \<and> card (live_keys L xs rs) \<le> card L + length xs"
proof (induction L xs rs rule: live_keys.induct)
  case (1 L k v xs r rs)
  have "card (insert k L) \<le> Suc (card L)"
    using "1.prems" by (simp add: card_insert_if)
  then show ?case
    using "1.IH" "1.prems" by (auto split: if_splits)
next
  case (2 L k xs r rs)
  have "card (L - {k}) \<le> card L"
    using "2.prems" by (simp add: card_Diff1_le)
  then show ?case
    using "2.IH" "2.prems" by (auto split: if_splits)
next
  case (3 L xs r rs)
  then show ?case by auto
qed simp_all

lemma entries_card:
  assumes "ht_inv ht"
  shows "length (entries ht) = card (dom (abs_map ht))"
proof -
  have "distinct (map key (entries ht))"
    using assms by (simp add: ht_inv_def)
  then have "card (set (map key (entries ht))) = length (map key (entries ht))"
    by (rule distinct_card)
  then show ?thesis
    by (simp add: dom_abs_map)
qed

lemma ht_inv_get: "ht_inv ht \<Longrightarrow> ht_get ht k = abs_map ht k"
  by (simp add: ht_inv_def ht_get_abs_map)

lemma ht_set_memory:
  assumes inv: "ht_inv ht" and s: "ht_set h ht k v = (r, ht', h')"
  shows "memory_used ht' - table_overhead ht'
    = (if r = 0 then
         (case abs_map ht k of
            None \<Rightarrow>
              memory_used ht - table_overhead ht
                + (sizeof_HashEntry + of_nat (length k) + 1 + of_nat (length v) + 1)
          | Some v0 \<Rightarrow> memory_used ht - table_overhead ht - of_nat (length v0) + of_nat (length v))
       else memory_used ht - table_overhead ht)"
proof (cases "length k \<le> 256 \<and> length v \<le> 4096")
  case False
  then have "r = - 1" "ht' = ht"
    using s by (auto simp: ht_set_def MAX_KEY_SIZE_def MAX_VALUE_SIZE_def strlen_def)
  then show ?thesis
    by simp
next
  case True
  then have "length k \<le> 256" "length v \<le> 4096"
    by simp_all
  then show ?thesis
    using s
  proof (cases rule: ht_set_cases)
    case (resize r1 ht1 h1)
    have i1: "ht_inv ht1"
      using ht_resize_inv(1) [OF inv resize(2)] .
    have a1: "abs_map ht1 = abs_map ht"
      using ht_resize_abs_map [OF inv resize(2)] .
    have m1: "memory_used ht1 - table_overhead ht1 = memory_used ht - table_overhead ht"
      using ht_resize_memory [OF inv resize(2)] .
    note e = ht_set_entry_inv [OF i1 resize(3)]
    have t: "table_overhead ht' = table_overhead ht1"
      using e by (simp add: table_overhead_def)
    show ?thesis
    proof (cases "r = 0")
      case True
      then show ?thesis
        using e m1 by (cases "abs_map ht k") (simp_all add: a1 t algebra_simps)
    next
      case False
      then have "ht' = ht1"
        using e by simp
      then show ?thesis
        using False m1 by simp
    qed
  next
    case plain
    note e = ht_set_entry_inv [OF inv plain(2)]
    have t: "table_overhead ht' = table_overhead ht"
      using e by (simp add: table_overhead_def)
    show ?thesis
    proof (cases "r = 0")
      case True
      then show ?thesis
        using e by (cases "abs_map ht k") (simp_all add: t algebra_simps)
    next
      case False
      then have "ht' = ht"
        using e by simp
      then show ?thesis
        using False by simp
    qed
  qed
qed

text \<open>
  C7. After \<open>ht_create\<close> and any sequence of sets, deletes and resizes, the count that
  \<open>ht_stats\<close> reports is the number of live keys: the keys set with success and not
  deleted with success since. A set of a key that is present leaves the count as it is,
  whether it succeeds or not; it leaves the value of every other key as it is; when it
  succeeds the key has the new value and the accounted memory of the entries changes by
  the difference of the two value lengths, and when it fails nothing of this changes.
\<close>

theorem stats_count_is_live_count:
  assumes "ht_create h n = (Some ht0, h0)" "run h0 ht0 xs = (rs, ht, h1)" "length xs < 2 ^ 64"
  shows "unat (fst (ht_stats ht)) = card (live_keys {} xs rs)
    \<and> (\<forall>k v h2 r ht' h3.
          ht_get ht k \<noteq> None \<longrightarrow> ht_set h2 ht k v = (r, ht', h3) \<longrightarrow>
            fst (ht_stats ht') = fst (ht_stats ht)
            \<and> (\<forall>k'. k' \<noteq> k \<longrightarrow> ht_get ht' k' = ht_get ht k')
            \<and> ht_get ht' k = (if r = 0 then Some v else ht_get ht k)
            \<and> snd (ht_stats ht') - table_overhead ht'
                = (if r = 0
                   then snd (ht_stats ht) - table_overhead ht
                          - of_nat (length (the (ht_get ht k))) + of_nat (length v)
                   else snd (ht_stats ht) - table_overhead ht))"
proof
  have inv: "ht_inv ht" and dom: "dom (abs_map ht) = live_keys {} xs rs"
    using created_run_inv [OF assms(1,2)] by simp_all
  have "card (live_keys {} xs rs) \<le> length xs"
    using live_keys_card [of "{}" xs rs] by simp
  then have "length (entries ht) \<le> length xs"
    using entries_card [OF inv] dom by simp
  then have "length (entries ht) < 2 ^ LENGTH(64)"
    using assms(3) by simp
  then have "unat (of_nat (length (entries ht)) :: 64 word) = length (entries ht)"
    by (simp only: unat_of_nat mod_less)
  then have "unat (num_entries ht) = length (entries ht)"
    using inv by (simp add: ht_inv_def)
  then show "unat (fst (ht_stats ht)) = card (live_keys {} xs rs)"
    using entries_card [OF inv] dom by (simp add: ht_stats_def)
  show "\<forall>k v h2 r ht' h3.
          ht_get ht k \<noteq> None \<longrightarrow> ht_set h2 ht k v = (r, ht', h3) \<longrightarrow>
            fst (ht_stats ht') = fst (ht_stats ht)
            \<and> (\<forall>k'. k' \<noteq> k \<longrightarrow> ht_get ht' k' = ht_get ht k')
            \<and> ht_get ht' k = (if r = 0 then Some v else ht_get ht k)
            \<and> snd (ht_stats ht') - table_overhead ht'
                = (if r = 0
                   then snd (ht_stats ht) - table_overhead ht
                          - of_nat (length (the (ht_get ht k))) + of_nat (length v)
                   else snd (ht_stats ht) - table_overhead ht)"
  proof (intro allI impI)
    fix k v h2 r ht' h3
    assume present: "ht_get ht k \<noteq> None" and s: "ht_set h2 ht k v = (r, ht', h3)"
    obtain v0 where v0: "abs_map ht k = Some v0"
      using present by (auto simp: ht_inv_get [OF inv])
    note si = ht_set_inv [OF inv s]
    have inv': "ht_inv ht'"
      using si by simp
    have 1: "fst (ht_stats ht') = fst (ht_stats ht)"
      using si v0 by (simp add: ht_stats_def)
    have 2: "\<forall>k'. k' \<noteq> k \<longrightarrow> ht_get ht' k' = ht_get ht k'"
      using si by (simp add: ht_inv_get [OF inv] ht_inv_get [OF inv'])
    have 3: "ht_get ht' k = (if r = 0 then Some v else ht_get ht k)"
      using si by (simp add: ht_inv_get [OF inv] ht_inv_get [OF inv'])
    have 4: "snd (ht_stats ht') - table_overhead ht'
                = (if r = 0
                   then snd (ht_stats ht) - table_overhead ht
                          - of_nat (length (the (ht_get ht k))) + of_nat (length v)
                   else snd (ht_stats ht) - table_overhead ht)"
      using ht_set_memory [OF inv s] v0 by (simp add: ht_stats_def ht_inv_get [OF inv])
    show "fst (ht_stats ht') = fst (ht_stats ht)
            \<and> (\<forall>k'. k' \<noteq> k \<longrightarrow> ht_get ht' k' = ht_get ht k')
            \<and> ht_get ht' k = (if r = 0 then Some v else ht_get ht k)
            \<and> snd (ht_stats ht') - table_overhead ht'
                = (if r = 0
                   then snd (ht_stats ht) - table_overhead ht
                          - of_nat (length (the (ht_get ht k))) + of_nat (length v)
                   else snd (ht_stats ht) - table_overhead ht)"
      using 1 2 3 4 by blast
  qed
qed

theorem stats_count_is_live_count_witness:
  "unat (fst (ht_stats sample_store)) = card (live_keys {} sample_ops [0, 0, 0, 0, - 1, 0, 0])
   \<and> live_keys {} sample_ops [0, 0, 0, 0, - 1, 0, 0] = {''a'', ''c''}
   \<and> ht_stats sample_store = (2, 186)
   \<and> fst (ht_stats (fst (snd (ht_set [] sample_store ''a'' ''55555''))))
       = fst (ht_stats sample_store)
   \<and> ht_get (fst (snd (ht_set [] sample_store ''a'' ''55555''))) ''c'' = ht_get sample_store ''c''
   \<and> ht_get (fst (snd (ht_set [] sample_store ''a'' ''55555''))) ''a'' = Some ''55555''
   \<and> ht_stats (fst (snd (ht_set [] sample_store ''a'' ''55555''))) = (2, 188)"
proof -
  have l: "length sample_ops < 2 ^ 64"
    by (simp add: sample_ops_def)
  have p: "ht_get sample_store ''a'' \<noteq> None"
    unfolding sample_store_eq by code_simp
  note r = sample_run [folded sample_store_eq]
  note t = stats_count_is_live_count [OF sample_create r l]
  have 1: "unat (fst (ht_stats sample_store))
             = card (live_keys {} sample_ops [0, 0, 0, 0, - 1, 0, 0])"
    using t by blast
  have 2: "fst (ht_stats (fst (snd (ht_set [] sample_store ''a'' ''55555''))))
             = fst (ht_stats sample_store)
      \<and> ht_get (fst (snd (ht_set [] sample_store ''a'' ''55555''))) ''c'' = ht_get sample_store ''c''
      \<and> ht_get (fst (snd (ht_set [] sample_store ''a'' ''55555''))) ''a'' = Some ''55555''"
    using t [THEN conjunct2, rule_format, OF p sample_set] by (simp add: sample_set)
  have 4: "live_keys {} sample_ops [0, 0, 0, 0, - 1, 0, 0] = {''a'', ''c''}"
    by (auto simp: sample_ops_def)
  have 5: "ht_stats sample_store = (2, 186)"
    by (simp add: sample_store_eq ht_stats_def)
  have 6: "ht_stats (fst (snd (ht_set [] sample_store ''a'' ''55555''))) = (2, 188)"
    by (simp add: sample_set ht_stats_def)
  show ?thesis
    using 1 2 4 5 6 by blast
qed

subsection \<open>Trimming and tokenising a command line\<close>

lemma isspace_delim: "is_delim c \<Longrightarrow> isspace c"
  by (auto simp: is_delim_def isspace_def)

lemma toupper_isspace: "isspace c \<Longrightarrow> toupper c = c"
  by (auto simp: isspace_def toupper_def)

lemma dropWhile_run:
  assumes "\<forall>x \<in> set xs. P x" "ys \<noteq> []" "\<not> P (hd ys)"
  shows "dropWhile P (xs @ ys) = ys"
proof -
  have "dropWhile P (xs @ ys) = dropWhile P ys"
    using assms(1) by (simp add: dropWhile_append2)
  then show ?thesis
    using assms(2,3) by (cases ys) simp_all
qed

lemma takeWhile_run:
  assumes "\<forall>x \<in> set xs. P x" "ys = [] \<or> \<not> P (hd ys)"
  shows "takeWhile P (xs @ ys) = xs"
proof -
  have "takeWhile P (xs @ ys) = xs @ takeWhile P ys"
    using assms(1) by (simp add: takeWhile_append2)
  then show ?thesis
    using assms(2) by (cases ys) auto
qed

lemma trim_end_append: "n < length s \<Longrightarrow> trim_end (s @ t) n = trim_end s n"
  by (induction n) (simp_all add: nth_append)

lemma trim_end_last:
  assumes "s \<noteq> []" "\<not> isspace (last s)"
  shows "trim_end s (length s - 1) = length s - 1"
proof (cases "length s - 1")
  case 0
  then show ?thesis by simp
next
  case (Suc i)
  have "s ! (length s - 1) = last s"
    using assms(1) by (simp add: last_conv_nth)
  then show ?thesis
    using assms(2) Suc by simp
qed

lemma trim_end_spaces:
  assumes "s \<noteq> []" "\<not> isspace (last s)" "\<forall>c \<in> set ws. isspace c"
  shows "trim_end (s @ ws) (length s - 1 + length ws) = length s - 1"
  using assms(3)
proof (induction ws rule: rev_induct)
  case Nil
  then show ?case
    using trim_end_last [OF assms(1,2)] by simp
next
  case (snoc c ws)
  have n: "length s - 1 + length (ws @ [c]) = Suc (length s - 1 + length ws)"
    by simp
  have i: "Suc (length s - 1 + length ws) = length (s @ ws)"
    using assms(1) by (cases s) simp_all
  have "(s @ ws @ [c]) ! Suc (length s - 1 + length ws) = c"
    unfolding i by (simp add: nth_append flip: append_assoc)
  then have "trim_end (s @ ws @ [c]) (Suc (length s - 1 + length ws))
               = trim_end ((s @ ws) @ [c]) (length s - 1 + length ws)"
    using snoc.prems by simp
  also have "\<dots> = trim_end (s @ ws) (length s - 1 + length ws)"
    using i by (intro trim_end_append) simp
  also have "\<dots> = length s - 1"
    using snoc by simp
  finally show ?case
    by (simp only: n append_assoc)
qed

lemma trim_whitespace_body:
  assumes "body \<noteq> []" "\<not> isspace (hd body)" "\<not> isspace (last body)"
    "\<forall>c \<in> set ws0. isspace c" "\<forall>c \<in> set ws3. isspace c"
  shows "trim_whitespace (ws0 @ body @ ws3) = body"
proof -
  have d: "dropWhile isspace (ws0 @ body @ ws3) = body @ ws3"
    using dropWhile_run [of ws0 isspace "body @ ws3"] assms(1,2,4) by simp
  have l: "strlen (body @ ws3) - 1 = length body - 1 + length ws3"
    using assms(1) by (cases body) (simp_all add: strlen_def)
  have te: "trim_end (body @ ws3) (strlen (body @ ws3) - 1) = length body - 1"
    unfolding l by (rule trim_end_spaces [OF assms(1,3,5)])
  have "trim_whitespace (ws0 @ body @ ws3)
          = take (trim_end (body @ ws3) (strlen (body @ ws3) - 1) + 1) (body @ ws3)"
    using assms(1) by (simp add: trim_whitespace_def d Let_def)
  also have "\<dots> = take (length body - 1 + 1) (body @ ws3)"
    by (simp only: te)
  also have "\<dots> = body"
    using assms(1) by (cases body) simp_all
  finally show ?thesis .
qed

lemma strtok_r_token:
  assumes "t \<noteq> []" "\<forall>c \<in> set t. \<not> is_delim c" "\<forall>c \<in> set d0. is_delim c" "is_delim d"
  shows "strtok_r (d0 @ t @ d # rest) = Some (t, rest)"
proof -
  have "\<not> is_delim (hd (t @ d # rest))"
    using assms(1,2) by (cases t) simp_all
  then have 1: "dropWhile is_delim (d0 @ t @ d # rest) = t @ d # rest"
    using dropWhile_run [of d0 is_delim "t @ d # rest"] assms(3) by simp
  have 2: "takeWhile (\<lambda>c. \<not> is_delim c) (t @ d # rest) = t"
    using takeWhile_run [of t "\<lambda>c. \<not> is_delim c" "d # rest"] assms(2,4) by simp
  have 3: "dropWhile (\<lambda>c. \<not> is_delim c) (t @ d # rest) = d # rest"
    using dropWhile_run [of t "\<lambda>c. \<not> is_delim c" "d # rest"] assms(2,4) by simp
  show ?thesis
    by (simp add: strtok_r_def 1 2 3 Let_def)
qed

lemma strtok_r_last:
  assumes "t \<noteq> []" "\<forall>c \<in> set t. \<not> is_delim c" "\<forall>c \<in> set d0. is_delim c"
  shows "strtok_r (d0 @ t) = Some (t, [])"
proof -
  have "\<not> is_delim (hd t)"
    using assms(1,2) by (cases t) simp_all
  then have 1: "dropWhile is_delim (d0 @ t) = t"
    using dropWhile_run [of d0 is_delim t] assms(1,3) by simp
  have 2: "takeWhile (\<lambda>c. \<not> is_delim c) t = t"
    using assms(2) by (simp add: takeWhile_eq_all_conv)
  have 3: "dropWhile (\<lambda>c. \<not> is_delim c) t = []"
    using assms(2) by simp
  show ?thesis
    using assms(1) by (simp add: strtok_r_def 1 2 3 Let_def)
qed

lemma strtok_r_Some:
  assumes "\<exists>c \<in> set s. \<not> is_delim c"
  shows "\<exists>t rest. strtok_r s = Some (t, rest)"
proof -
  have "dropWhile is_delim s \<noteq> []"
    using assms by (simp add: dropWhile_eq_Nil_conv)
  then show ?thesis
    by (simp add: strtok_r_def Let_def)
qed

lemma strtok_r_Nil: "strtok_r [] = None"
  by (simp add: strtok_r_def)

lemma str_duplicate_grants:
  "grants h \<Longrightarrow> str_duplicate h s = (Some s, tl h) \<and> grants (tl h)"
  by (cases h) (auto simp: str_duplicate_def grants_def)

lemma reply_grants: "grants h \<Longrightarrow> reply h ht s = Returns (Some s) ht (tl h)"
  by (simp add: reply_def str_duplicate_grants)

text \<open>A command token that reads \<open>SET\<close> or \<open>GET\<close> in upper case holds no whitespace.\<close>

lemma command_token:
  assumes "map toupper cmd = w" "\<forall>c \<in> set w. \<not> isspace c" "w \<noteq> []"
  shows "cmd \<noteq> []" "\<forall>c \<in> set cmd. \<not> isspace c" "\<forall>c \<in> set cmd. \<not> is_delim c"
proof -
  show "cmd \<noteq> []"
    using assms(1,3) by auto
  show s: "\<forall>c \<in> set cmd. \<not> isspace c"
  proof
    fix c
    assume c: "c \<in> set cmd"
    then have "toupper c \<in> set w"
      using assms(1) by auto
    then have "\<not> isspace (toupper c)"
      using assms(2) by blast
    then show "\<not> isspace c"
      using toupper_isspace [of c] by auto
  qed
  show "\<forall>c \<in> set cmd. \<not> is_delim c"
    using s isspace_delim by blast
qed

subsection \<open>GET and SET command lines\<close>

lemma parse_command_numeral:
  "parse_command s (numeral n)
     = (case strtok_r s of
          None \<Rightarrow> []
        | Some (token, rest) \<Rightarrow> token # parse_command rest (pred_numeral n))"
  by (simp add: numeral_eq_Suc)

lemma parse_command_two:
  assumes "cmd \<noteq> []" "\<forall>c \<in> set cmd. \<not> is_delim c" "d1 \<noteq> []" "\<forall>c \<in> set d1. is_delim c"
    "k \<noteq> []" "\<forall>c \<in> set k. \<not> is_delim c"
  shows "parse_command (cmd @ d1 @ k) 10 = [cmd, k]"
proof -
  obtain d d1' where d1: "d1 = d # d1'"
    using assms(3) by (cases d1) auto
  have 1: "strtok_r (cmd @ d1 @ k) = Some (cmd, d1' @ k)"
    using strtok_r_token [of cmd "[]" d "d1' @ k"] assms(1,2,4) by (simp add: d1)
  have 2: "strtok_r (d1' @ k) = Some (k, [])"
    using strtok_r_last [of k d1'] assms(4,5,6) by (simp add: d1)
  show ?thesis
    by (simp add: parse_command_numeral 1 2 strtok_r_Nil)
qed

lemma parse_command_three:
  assumes "cmd \<noteq> []" "\<forall>c \<in> set cmd. \<not> is_delim c" "d1 \<noteq> []" "\<forall>c \<in> set d1. is_delim c"
    "k \<noteq> []" "\<forall>c \<in> set k. \<not> is_delim c" "d2 \<noteq> []" "is_delim (hd d2)"
    "v \<noteq> []" "\<not> is_delim (hd v)"
  shows "\<exists>t ts. parse_command (cmd @ d1 @ k @ d2 @ v) 10 = cmd # k # t # ts"
proof -
  obtain d d1' where d1: "d1 = d # d1'"
    using assms(3) by (cases d1) auto
  obtain e d2' where d2: "d2 = e # d2'" and e: "is_delim e"
    using assms(7,8) by (cases d2) auto
  have 1: "strtok_r (cmd @ d1 @ k @ d2 @ v) = Some (cmd, d1' @ k @ d2 @ v)"
    using strtok_r_token [of cmd "[]" d "d1' @ k @ d2 @ v"] assms(1,2,4) by (simp add: d1)
  have 2: "strtok_r (d1' @ k @ d2 @ v) = Some (k, d2' @ v)"
    using strtok_r_token [of k d1' e "d2' @ v"] assms(4,5,6) e by (simp add: d1 d2)
  have "hd v \<in> set (d2' @ v)"
    using assms(9) by simp
  then have "\<exists>c \<in> set (d2' @ v). \<not> is_delim c"
    using assms(10) by blast
  then obtain t rest where 3: "strtok_r (d2' @ v) = Some (t, rest)"
    using strtok_r_Some by blast
  have "parse_command (cmd @ d1 @ k @ d2 @ v) 10 = cmd # k # t # parse_command rest 7"
    by (simp add: parse_command_numeral 1 2 3)
  then show ?thesis
    by blast
qed

lemma set_value_start_line:
  assumes "cmd \<noteq> []" "\<forall>c \<in> set cmd. \<not> isspace c" "d1 \<noteq> []" "\<forall>c \<in> set d1. isspace c"
    "k \<noteq> []" "\<forall>c \<in> set k. \<not> isspace c" "d2 \<noteq> []" "\<forall>c \<in> set d2. isspace c"
    "v \<noteq> []" "\<not> isspace (hd v)"
  shows "set_value_start (cmd @ d1 @ k @ d2 @ v) = v"
proof -
  have h1: "isspace (hd (d1 @ k @ d2 @ v))"
    using assms(3,4) by (cases d1) simp_all
  have h2: "\<not> isspace (hd (k @ d2 @ v))"
    using assms(5,6) by (cases k) simp_all
  have h3: "isspace (hd (d2 @ v))"
    using assms(7,8) by (cases d2) simp_all
  have 1: "dropWhile (\<lambda>c. \<not> isspace c) (cmd @ d1 @ k @ d2 @ v) = d1 @ k @ d2 @ v"
    using dropWhile_run [of cmd "\<lambda>c. \<not> isspace c" "d1 @ k @ d2 @ v"] assms(2,3) h1 by simp
  have 2: "dropWhile isspace (d1 @ k @ d2 @ v) = k @ d2 @ v"
    using dropWhile_run [of d1 isspace "k @ d2 @ v"] assms(4,5) h2 by simp
  have 3: "dropWhile (\<lambda>c. \<not> isspace c) (k @ d2 @ v) = d2 @ v"
    using dropWhile_run [of k "\<lambda>c. \<not> isspace c" "d2 @ v"] assms(6,7) h3 by simp
  have 4: "dropWhile isspace (d2 @ v) = v"
    using dropWhile_run [of d2 isspace v] assms(8,9,10) by simp
  show ?thesis
    by (simp add: set_value_start_def 1 2 3 4)
qed

lemma process_command_GET:
  assumes "map toupper cmd = ''GET''" "d1 \<noteq> []" "\<forall>c \<in> set d1. is_delim c"
    "k \<noteq> []" "\<forall>c \<in> set k. \<not> isspace c"
    "\<forall>c \<in> set ws0. isspace c" "\<forall>c \<in> set ws3. isspace c"
  shows "process_command h ht (ws0 @ cmd @ d1 @ k @ ws3)
    = reply (snd (malloc h)) ht
        (if fst (malloc h) then (case ht_get ht k of Some v \<Rightarrow> v | None \<Rightarrow> ''NULL'')
         else ''ERROR: Memory allocation failed'')"
proof -
  have w: "\<forall>c \<in> set ''GET''. \<not> isspace c" "''GET'' \<noteq> []"
    by (simp_all add: isspace_def)
  note c = command_token [OF assms(1) w]
  have kd: "\<forall>c \<in> set k. \<not> is_delim c"
    using assms(5) isspace_delim by blast
  let ?body = "cmd @ d1 @ k"
  have b: "?body \<noteq> []" "\<not> isspace (hd ?body)" "\<not> isspace (last ?body)"
    using c(1,2) assms(4,5) by (cases cmd; simp)+
  have tr: "trim_whitespace (ws0 @ cmd @ d1 @ k @ ws3) = ?body"
    using trim_whitespace_body [OF b assms(6,7)] by simp
  have pc: "parse_command ?body 10 = [cmd, k]"
    using parse_command_two [OF c(1) c(3) assms(2,3,4) kd] by simp
  show ?thesis
  proof (cases "malloc h")
    case (Pair ok h1)
    show ?thesis
      using b(1) c(1)
      by (cases ok)
         (simp_all add: process_command_def str_duplicate_def Pair tr pc Let_def strlen_def
             assms(1) split: option.splits)
  qed
qed

lemma ht_set_entry_heap: "grants h \<Longrightarrow> grants (snd (snd (ht_set_entry h ht k v)))"
proof -
  assume g: "grants h"
  let ?c = "buckets ht ! bucket_index k (num_buckets ht)"
  obtain e h' where e: "entry_create h k v = (Some e, h')" "grants h'"
    using entry_create_grants [OF g] by blast
  have u: "update_chain h k v c = Updated c' om nm h1 \<Longrightarrow> grants h1" for c c' om nm h1
  proof (induction c arbitrary: c')
    case Nil
    then show ?case by simp
  next
    case (Cons a c)
    then show ?case
      using malloc_grants [OF g]
      by (auto simp: Let_def split: if_splits prod.splits bool.splits update.splits)
  qed
  show ?thesis
    using u [of ?c] e g update_chain_grants [OF g, of k v ?c]
    by (auto simp: ht_set_entry_def Let_def split: update.splits)
qed

lemma ht_set_heap: "grants h \<Longrightarrow> grants (snd (snd (ht_set h ht k v)))"
proof -
  assume g: "grants h"
  obtain r ht1 h1 where r: "ht_resize h ht = (r, ht1, h1)"
    by (cases "ht_resize h ht") auto
  have "grants h1"
    using ht_resize_grants [OF g r] .
  then show ?thesis
    using g r by (simp add: ht_set_def ht_set_entry_heap)
qed

lemma process_command_SET:
  assumes "map toupper cmd = ''SET''" "d1 \<noteq> []" "\<forall>c \<in> set d1. is_delim c"
    "k \<noteq> []" "\<forall>c \<in> set k. \<not> isspace c"
    "d2 \<noteq> []" "is_delim (hd d2)" "\<forall>c \<in> set d2. isspace c"
    "v \<noteq> []" "\<not> isspace (hd v)" "\<not> isspace (last v)"
    "\<forall>c \<in> set ws0. isspace c" "\<forall>c \<in> set ws3. isspace c"
    "malloc h = (True, h1)" "malloc h1 = (True, h2)"
  shows "process_command h ht (ws0 @ cmd @ d1 @ k @ d2 @ v @ ws3)
    = (case ht_set h2 ht k v of
         (r, ht', h') \<Rightarrow>
           if r = 0 then reply h' ht' ''OK'' else reply h' ht' ''ERROR: Failed to set value'')"
proof -
  have w: "\<forall>c \<in> set ''SET''. \<not> isspace c" "''SET'' \<noteq> []"
    by (simp_all add: isspace_def)
  note c = command_token [OF assms(1) w]
  have kd: "\<forall>c \<in> set k. \<not> is_delim c"
    using assms(5) isspace_delim by blast
  have vd: "\<not> is_delim (hd v)"
    using assms(10) isspace_delim by blast
  have s1: "\<forall>c \<in> set d1. isspace c"
    using assms(3) isspace_delim by blast
  have h2: "is_delim (hd d2)" and s2: "\<forall>c \<in> set d2. isspace c"
    using assms(7,8) by simp_all
  let ?body = "cmd @ d1 @ k @ d2 @ v"
  have b: "?body \<noteq> []" "\<not> isspace (hd ?body)" "\<not> isspace (last ?body)"
    using c(1,2) assms(9,11) by (cases cmd; simp)+
  have tr: "trim_whitespace (ws0 @ cmd @ d1 @ k @ d2 @ v @ ws3) = ?body"
    using trim_whitespace_body [OF b assms(12,13)] by simp
  obtain t ts where pc: "parse_command ?body 10 = cmd # k # t # ts"
    using parse_command_three [OF c(1) c(3) assms(2,3,4) kd assms(6) h2 assms(9) vd] by blast
  have p: "set_value_start ?body = v"
    using set_value_start_line [OF c(1) c(2) assms(2) s1 assms(4,5,6) s2 assms(9,10)] .
  show ?thesis
    using b(1) assms(9)
    by (simp add: process_command_def str_duplicate_def tr pc p Let_def strlen_def assms(1,14,15)
        split: prod.splits)
qed

text \<open>
  C10. A \<open>GET\<close> line is a command token that reads \<open>GET\<close> in upper case, blanks or
  tabs, and a key without whitespace, with whitespace allowed around the line. On a store
  where the key holds the four bytes \<open>NULL\<close> and on a store where the key is absent, the
  interpreter returns the same reply and leaves the same allocator, whatever the allocator
  does; when the allocator grants its requests that reply is \<open>NULL\<close>.
\<close>

theorem get_reply_NULL_is_ambiguous:
  assumes "map toupper cmd = ''GET''" "d1 \<noteq> []" "\<forall>c \<in> set d1. is_delim c"
    "k \<noteq> []" "\<forall>c \<in> set k. \<not> isspace c"
    "\<forall>c \<in> set ws0. isspace c" "\<forall>c \<in> set ws3. isspace c"
    "ht_get ht1 k = Some ''NULL''" "ht_get ht2 k = None"
  shows "\<exists>r h'. process_command h ht1 (ws0 @ cmd @ d1 @ k @ ws3) = Returns r ht1 h'
           \<and> process_command h ht2 (ws0 @ cmd @ d1 @ k @ ws3) = Returns r ht2 h'
           \<and> (grants h \<longrightarrow> r = Some ''NULL'')"
proof -
  let ?m = "if fst (malloc h) then ''NULL'' else ''ERROR: Memory allocation failed''"
  have 1: "process_command h ht1 (ws0 @ cmd @ d1 @ k @ ws3) = reply (snd (malloc h)) ht1 ?m"
    using process_command_GET [OF assms(1-7), of h ht1] by (simp add: assms(8))
  have 2: "process_command h ht2 (ws0 @ cmd @ d1 @ k @ ws3) = reply (snd (malloc h)) ht2 ?m"
    using process_command_GET [OF assms(1-7), of h ht2] by (simp add: assms(9))
  obtain r h' where sd: "str_duplicate (snd (malloc h)) ?m = (r, h')"
    by (cases "str_duplicate (snd (malloc h)) ?m") auto
  have 3: "r = Some ''NULL''" if g: "grants h"
  proof -
    have "fst (malloc h)" "grants (snd (malloc h))"
      using malloc_grants [OF g] by simp_all
    then show ?thesis
      using str_duplicate_grants [of "snd (malloc h)" "''NULL''"] sd by simp
  qed
  have "process_command h ht1 (ws0 @ cmd @ d1 @ k @ ws3) = Returns r ht1 h'"
    "process_command h ht2 (ws0 @ cmd @ d1 @ k @ ws3) = Returns r ht2 h'"
    by (simp_all only: 1 2 reply_def sd prod.case)
  then show ?thesis
    using 3 by blast
qed

theorem get_reply_NULL_is_ambiguous_witness:
  "process_command [] null_store ''GET k'' = Returns (Some ''NULL'') null_store []
   \<and> process_command [] empty_store ''GET k'' = Returns (Some ''NULL'') empty_store []
   \<and> ht_get null_store ''k'' = Some ''NULL''
   \<and> ht_get empty_store ''k'' = None
   \<and> ht_create [] 1 = (Some empty_store, [])
   \<and> process_command [] empty_store ''SET k NULL'' = Returns (Some ''OK'') null_store []"
proof -
  have a: "map toupper ''GET'' = ''GET''" "'' '' \<noteq> []" "\<forall>c \<in> set '' ''. is_delim c"
    "''k'' \<noteq> []" "\<forall>c \<in> set ''k''. \<not> isspace c"
    "\<forall>c \<in> set []. isspace c"
    by (simp_all add: toupper_def is_delim_def isspace_def)
  have g1: "ht_get null_store ''k'' = Some ''NULL''"
    by code_simp
  have g2: "ht_get empty_store ''k'' = None"
    by code_simp
  have e1: "process_command [] null_store ''GET k'' = Returns (Some ''NULL'') null_store []"
    by code_simp
  have e2: "process_command [] empty_store ''GET k'' = Returns (Some ''NULL'') empty_store []"
    by code_simp
  have c: "ht_create [] 1 = (Some empty_store, [])"
    by code_simp
  have s: "process_command [] empty_store ''SET k NULL'' = Returns (Some ''OK'') null_store []"
    by code_simp
  show ?thesis
    using get_reply_NULL_is_ambiguous [OF a(1-5) a(6) a(6) g1 g2, of "[]"] e1 e2 g1 g2 c s
    by simp
qed

text \<open>
  C6, as amended. The tokenizer splits the line at blanks and tabs only, while the scan
  for the value skips every whitespace character. The two agree on a \<open>SET\<close> line of this
  form: a command token that reads \<open>SET\<close> in upper case, a run of blanks or tabs, a key
  without whitespace, a whitespace run that begins with a blank or a tab, and a value that
  begins and ends with a character that is not whitespace and may hold any whitespace
  inside, with whitespace allowed around the line. On such a line the value passed to
  \<open>ht_set\<close> is that whole value, the rest of the trimmed line after the command token, the
  run after it, the key token and the run after it, and not the third token alone. Within
  the size limits and with an allocator that grants its requests the reply is \<open>OK\<close>, and
  the key then holds the value.
\<close>

theorem set_value_is_rest_of_line:
  assumes "map toupper cmd = ''SET''" "d1 \<noteq> []" "\<forall>c \<in> set d1. is_delim c"
    "k \<noteq> []" "\<forall>c \<in> set k. \<not> isspace c"
    "d2 \<noteq> []" "is_delim (hd d2)" "\<forall>c \<in> set d2. isspace c"
    "v \<noteq> []" "\<not> isspace (hd v)" "\<not> isspace (last v)"
    "\<forall>c \<in> set ws0. isspace c" "\<forall>c \<in> set ws3. isspace c"
    "length k \<le> 256" "length v \<le> 4096" "grants h"
  shows "process_command h ht (ws0 @ cmd @ d1 @ k @ d2 @ v @ ws3)
           = Returns (Some ''OK'') (fst (snd (ht_set (tl (tl h)) ht k v)))
               (tl (snd (snd (ht_set (tl (tl h)) ht k v))))
    \<and> fst (ht_set (tl (tl h)) ht k v) = 0
    \<and> (ht_wf ht \<longrightarrow> ht_get (fst (snd (ht_set (tl (tl h)) ht k v))) k = Some v)"
proof -
  let ?h2 = "tl (tl h)"
  have m1: "malloc h = (True, tl h)" and g1: "grants (tl h)"
    using assms(16) by (cases h; simp add: grants_def)+
  have m2: "malloc (tl h) = (True, ?h2)" and g2: "grants ?h2"
    using g1 by (cases "tl h"; simp add: grants_def)+
  obtain r ht' h' where s: "ht_set ?h2 ht k v = (r, ht', h')"
    by (cases "ht_set ?h2 ht k v") auto
  have r: "r = 0"
    using ht_set_grants [OF assms(14,15) g2, of ht] s by simp
  have g3: "grants h'"
    using ht_set_heap [OF g2, of ht k v] s by simp
  have "process_command h ht (ws0 @ cmd @ d1 @ k @ d2 @ v @ ws3) = reply h' ht' ''OK''"
    using process_command_SET [OF assms(1-13) m1 m2, of ht] by (simp add: s r)
  then have 1: "process_command h ht (ws0 @ cmd @ d1 @ k @ d2 @ v @ ws3)
                  = Returns (Some ''OK'') ht' (tl h')"
    by (simp add: reply_grants [OF g3])
  have 2: "ht_wf ht \<longrightarrow> ht_get ht' k = Some v"
    using set_get_roundtrip_aux [OF _ assms(14,15) s] r by simp
  show ?thesis
    using 1 2 r by (simp add: s)
qed

theorem set_value_is_rest_of_line_witness:
  "process_command [] (the (fst (ht_create [] 0))) ''SET greeting hello world''
     = Returns (Some ''OK'')
         (fst (snd (ht_set [] (the (fst (ht_create [] 0))) ''greeting'' ''hello world''))) []
   \<and> ht_get (fst (snd (ht_set [] (the (fst (ht_create [] 0))) ''greeting'' ''hello world'')))
         ''greeting'' = Some ''hello world''
   \<and> parse_command ''SET greeting hello world'' 10 = [''SET'', ''greeting'', ''hello'', ''world'']"
proof -
  have a: "map toupper ''SET'' = ''SET''" "'' '' \<noteq> []" "\<forall>c \<in> set '' ''. is_delim c"
    "''greeting'' \<noteq> []" "\<forall>c \<in> set ''greeting''. \<not> isspace c"
    "is_delim (hd '' '')" "\<forall>c \<in> set '' ''. isspace c"
    "''hello world'' \<noteq> []" "\<not> isspace (hd ''hello world'')" "\<not> isspace (last ''hello world'')"
    "\<forall>c \<in> set []. isspace c" "length ''greeting'' \<le> 256" "length ''hello world'' \<le> 4096"
    "grants []"
    by (simp_all add: toupper_def is_delim_def isspace_def grants_def)
  have wf: "ht_wf (the (fst (ht_create [] 0)))"
    by (simp add: ht_wf_def ht_create_def calloc_def INITIAL_BUCKETS_def sizeof_ptr_def)
  have h: "snd (snd (ht_set [] (the (fst (ht_create [] 0))) ''greeting'' ''hello world'')) = []"
    by code_simp
  have p: "parse_command ''SET greeting hello world'' 10
             = [''SET'', ''greeting'', ''hello'', ''world'']"
    by code_simp
  show ?thesis
    using set_value_is_rest_of_line [OF a(1-5) a(2) a(6-10) a(11) a(11) a(12-14),
        of "the (fst (ht_create [] 0))"] wf h p
    by simp
qed

text \<open>
  Without the condition on the two runs the rule fails, since a carriage return is
  whitespace for the scan and no separator for the tokenizer. The line made of \<open>SET k\<close>,
  a carriage return and \<open>v\<close> has two tokens: the reply is
  \<open>ERROR: SET requires key and value\<close> and the store is unchanged. The line made of
  \<open>SET a\<close>, a carriage return and \<open>b c\<close> has a key token of three bytes, \<open>a\<close>, the
  carriage return and \<open>b\<close>, and the scan stops inside it: the value \<open>b c\<close> is stored
  under that key, and the key \<open>a\<close> holds nothing.
\<close>

theorem set_value_is_rest_of_line_counterexample:
  "isspace (CHR 0x0D) \<and> \<not> is_delim (CHR 0x0D)
   \<and> process_command [] empty_store (''SET k'' @ [CHR 0x0D] @ ''v'')
       = Returns (Some ''ERROR: SET requires key and value'') empty_store []
   \<and> process_command [] empty_store (''SET a'' @ [CHR 0x0D] @ ''b c'')
       = Returns (Some ''OK'')
           (fst (snd (ht_set [] empty_store (''a'' @ [CHR 0x0D] @ ''b'') ''b c''))) []
   \<and> ht_get (fst (snd (ht_set [] empty_store (''a'' @ [CHR 0x0D] @ ''b'') ''b c'')))
         (''a'' @ [CHR 0x0D] @ ''b'') = Some ''b c''
   \<and> ht_get (fst (snd (ht_set [] empty_store (''a'' @ [CHR 0x0D] @ ''b'') ''b c''))) ''a'' = None"
proof -
  have 1: "isspace (CHR 0x0D)" "\<not> is_delim (CHR 0x0D)"
    by (simp_all add: isspace_def is_delim_def)
  have 2: "process_command [] empty_store (''SET k'' @ [CHR 0x0D] @ ''v'')
       = Returns (Some ''ERROR: SET requires key and value'') empty_store []"
    by code_simp
  have s: "ht_set [] empty_store (''a'' @ [CHR 0x0D] @ ''b'') ''b c''
       = (0, \<lparr>buckets = [[\<lparr>key = ''a'' @ [CHR 0x0D] @ ''b'', val = ''b c'',
                                key_len = 3, value_len = 3\<rparr>]],
              num_buckets = 1, num_entries = 1, memory_used = 88\<rparr>, [])"
    by code_simp
  have 3: "process_command [] empty_store (''SET a'' @ [CHR 0x0D] @ ''b c'')
       = Returns (Some ''OK'')
           \<lparr>buckets = [[\<lparr>key = ''a'' @ [CHR 0x0D] @ ''b'', val = ''b c'',
                             key_len = 3, value_len = 3\<rparr>]],
            num_buckets = 1, num_entries = 1, memory_used = 88\<rparr> []"
    by code_simp
  have 4: "ht_get \<lparr>buckets = [[\<lparr>key = ''a'' @ [CHR 0x0D] @ ''b'', val = ''b c'',
                             key_len = 3, value_len = 3\<rparr>]],
            num_buckets = 1, num_entries = 1, memory_used = 88\<rparr> (''a'' @ [CHR 0x0D] @ ''b'')
         = Some ''b c''"
    by code_simp
  have 5: "ht_get \<lparr>buckets = [[\<lparr>key = ''a'' @ [CHR 0x0D] @ ''b'', val = ''b c'',
                             key_len = 3, value_len = 3\<rparr>]],
            num_buckets = 1, num_entries = 1, memory_used = 88\<rparr> ''a'' = None"
    by code_simp
  show ?thesis
    using 1 2 3 4 5 by (simp only: s fst_conv snd_conv) simp
qed

subsection \<open>The load-factor test in single precision\<close>


lemma rte_cases: "round_ties_even x = \<lfloor>x\<rfloor> \<or> round_ties_even x = \<lfloor>x\<rfloor> + 1"
  by (simp add: round_ties_even_def Let_def)

lemma rte_le:
  assumes "x \<le> of_int t"
  shows "round_ties_even x \<le> t"
proof (cases "\<lfloor>x\<rfloor> < t")
  case True
  then show ?thesis
    using rte_cases [of x] by auto
next
  case False
  have "\<lfloor>x\<rfloor> \<le> t"
    using assms by (simp add: floor_le_iff)
  then have f: "\<lfloor>x\<rfloor> = t"
    using False by simp
  then have "of_int t \<le> x"
    by (metis of_int_floor_le)
  then have "x = of_int t"
    using assms by simp
  then show ?thesis
    by (simp add: round_ties_even_def)
qed

lemma rte_ge:
  assumes "of_int t \<le> x"
  shows "t \<le> round_ties_even x"
proof -
  have "t \<le> \<lfloor>x\<rfloor>"
    using assms by (simp add: le_floor_iff)
  then show ?thesis
    using rte_cases [of x] by auto
qed

lemma rte_gt:
  assumes "of_int t + 1 / 2 < x"
  shows "t + 1 \<le> round_ties_even x"
proof (cases "t + 1 \<le> \<lfloor>x\<rfloor>")
  case True
  then show ?thesis
    using rte_cases [of x] by auto
next
  case False
  have "of_int t \<le> x"
    using assms by simp
  then have "t \<le> \<lfloor>x\<rfloor>"
    by (simp add: le_floor_iff)
  then have f: "\<lfloor>x\<rfloor> = t"
    using False by simp
  then have "1 / 2 < x - of_int \<lfloor>x\<rfloor>"
    using assms by simp
  then show ?thesis
    using f by (simp add: round_ties_even_def Let_def)
qed

lemma rte_int: "round_ties_even (of_int n) = n"
  by (simp add: round_ties_even_def)


lemma two_powi_nat: "0 \<le> p \<Longrightarrow> (2 :: rat) powi p = of_int (2 ^ nat p)"
  by (simp add: power_int_def)

lemma two_powi_neg: "0 \<le> b \<Longrightarrow> (2 :: rat) powi (- b) = 1 / of_int (2 ^ nat b)"
  by (simp add: power_int_def field_simps)

lemma exponent_bounds_ge1:
  assumes "1 \<le> x"
  shows "2 powi (binary32_exponent x + 23) \<le> x \<and> x < 2 powi (binary32_exponent x + 24)"
proof -
  let ?n = "\<lfloor>x\<rfloor>"
  have n: "0 < ?n"
    using assms by simp
  have bl: "1 \<le> bitlen ?n"
    using n by (simp add: bitlen_alt_def)
  have e: "binary32_exponent x = bitlen ?n - 1 - 23"
    using assms by (simp add: binary32_exponent_def)
  note b = bitlen_bounds [OF n]
  have "(2 :: rat) powi (bitlen ?n - 1) = of_int (2 ^ nat (bitlen ?n - 1))"
    using bl by (intro two_powi_nat) simp
  also have "\<dots> \<le> of_int ?n"
    using b by (simp only: of_int_le_iff)
  also have "\<dots> \<le> x"
    by simp
  finally have lo: "2 powi (bitlen ?n - 1) \<le> x" .
  have "?n + 1 \<le> 2 ^ nat (bitlen ?n)"
    using b by simp
  then have "(of_int (?n + 1) :: rat) \<le> of_int (2 ^ nat (bitlen ?n))"
    by (simp only: of_int_le_iff)
  moreover have "x < of_int (?n + 1)"
    using floor_correct [of x] by blast
  moreover have "(2 :: rat) powi (bitlen ?n) = of_int (2 ^ nat (bitlen ?n))"
    using bl by (intro two_powi_nat) simp
  ultimately have hi: "x < 2 powi (bitlen ?n)"
    by linarith
  show ?thesis
    using lo hi by (simp add: e)
qed

lemma exponent_bounds_lt1:
  assumes "0 < x" "x < 1"
  shows "2 powi (binary32_exponent x + 23) \<le> x \<and> x < 2 powi (binary32_exponent x + 24)"
proof -
  let ?m = "\<lceil>1 / x\<rceil>"
  have "1 < 1 / x"
    using assms by simp
  then have m: "0 < ?m - 1"
    by (simp add: less_ceiling_iff)
  have bl: "1 \<le> bitlen (?m - 1)"
    using m by (simp add: bitlen_alt_def)
  have e: "binary32_exponent x = - bitlen (?m - 1) - 23"
    using assms by (simp add: binary32_exponent_def)
  note b = bitlen_bounds [OF m]
  have "?m \<le> 2 ^ nat (bitlen (?m - 1))"
    using b by simp
  then have "(of_int ?m :: rat) \<le> of_int (2 ^ nat (bitlen (?m - 1)))"
    by (simp only: of_int_le_iff)
  moreover have "1 / x \<le> of_int ?m"
    by (rule le_of_int_ceiling)
  ultimately have "1 / x \<le> of_int (2 ^ nat (bitlen (?m - 1)))"
    by linarith
  then have "1 / of_int (2 ^ nat (bitlen (?m - 1))) \<le> x"
    using assms(1) by (simp add: field_simps)
  then have lo: "2 powi (- bitlen (?m - 1)) \<le> x"
    using bl by (simp add: two_powi_neg)
  have "(of_int (2 ^ nat (bitlen (?m - 1) - 1)) :: rat) \<le> of_int (?m - 1)"
    using b by (simp only: of_int_le_iff)
  moreover have "of_int (?m - 1) < 1 / x"
    using ceiling_correct [of "1 / x"] by simp
  ultimately have "of_int (2 ^ nat (bitlen (?m - 1) - 1)) < 1 / x"
    by linarith
  then have "x < 1 / of_int (2 ^ nat (bitlen (?m - 1) - 1))"
    using assms(1) by (simp add: field_simps)
  moreover have "(2 :: rat) powi (- (bitlen (?m - 1) - 1)) = 1 / of_int (2 ^ nat (bitlen (?m - 1) - 1))"
    using bl by (intro two_powi_neg) simp
  ultimately have hi: "x < 2 powi (- (bitlen (?m - 1) - 1))"
    by linarith
  have "- bitlen (?m - 1) - 23 + 24 = - (bitlen (?m - 1) - 1)"
    by simp
  then show ?thesis
    using lo hi by (simp add: e)
qed

lemma exponent_bounds:
  assumes "0 < x"
  shows "2 powi (binary32_exponent x + 23) \<le> x \<and> x < 2 powi (binary32_exponent x + 24)"
  using exponent_bounds_ge1 [of x] exponent_bounds_lt1 [of x] assms by (cases "1 \<le> x") simp_all


lemma two_powi_pos: "0 < (2 :: rat) powi e"
  by (simp add: zero_less_power_int)

lemma two_powi_less_exp: "(2 :: rat) powi a < 2 powi b \<Longrightarrow> a < b"
proof (rule ccontr)
  assume l: "(2 :: rat) powi a < 2 powi b" and "\<not> a < b"
  then have "b \<le> a"
    by simp
  then have "(2 :: rat) powi b \<le> 2 powi a"
    by (intro power_int_increasing) simp_all
  then show False
    using l by simp
qed

lemma binary32_round_pos:
  "0 < x \<Longrightarrow>
     binary32_round x
       = of_int (round_ties_even (x / 2 powi binary32_exponent x)) * 2 powi binary32_exponent x"
  by (simp add: binary32_round_def Let_def)

lemma round_le_grid:
  assumes "0 < x" "x \<le> of_int t * 2 powi binary32_exponent x"
  shows "binary32_round x \<le> of_int t * 2 powi binary32_exponent x"
proof -
  let ?p = "(2 :: rat) powi binary32_exponent x"
  have "x / ?p \<le> of_int t"
    using assms(2) two_powi_pos [of "binary32_exponent x"] by (simp add: field_simps)
  then have "round_ties_even (x / ?p) \<le> t"
    by (rule rte_le)
  then have "(of_int (round_ties_even (x / ?p)) :: rat) \<le> of_int t"
    by (simp only: of_int_le_iff)
  then have "of_int (round_ties_even (x / ?p)) * ?p \<le> of_int t * ?p"
    using two_powi_pos [of "binary32_exponent x"] by (simp only: mult_le_cancel_right_pos)
  then show ?thesis
    by (simp only: binary32_round_pos [OF assms(1)])
qed

lemma round_ge_grid:
  assumes "0 < x" "of_int t * 2 powi binary32_exponent x \<le> x"
  shows "of_int t * 2 powi binary32_exponent x \<le> binary32_round x"
proof -
  let ?p = "(2 :: rat) powi binary32_exponent x"
  have "of_int t \<le> x / ?p"
    using assms(2) two_powi_pos [of "binary32_exponent x"] by (simp add: field_simps)
  then have "t \<le> round_ties_even (x / ?p)"
    by (rule rte_ge)
  then have "(of_int t :: rat) \<le> of_int (round_ties_even (x / ?p))"
    by (simp only: of_int_le_iff)
  then have "of_int t * ?p \<le> of_int (round_ties_even (x / ?p)) * ?p"
    using two_powi_pos [of "binary32_exponent x"] by (simp only: mult_le_cancel_right_pos)
  then show ?thesis
    by (simp only: binary32_round_pos [OF assms(1)])
qed

lemma round_gt_grid:
  assumes "0 < x" "(of_int t + 1 / 2) * 2 powi binary32_exponent x < x"
  shows "of_int (t + 1) * 2 powi binary32_exponent x \<le> binary32_round x"
proof -
  let ?p = "(2 :: rat) powi binary32_exponent x"
  have "of_int t + 1 / 2 < x / ?p"
    using assms(2) two_powi_pos [of "binary32_exponent x"] by (simp add: field_simps)
  then have "t + 1 \<le> round_ties_even (x / ?p)"
    by (rule rte_gt)
  then have "(of_int (t + 1) :: rat) \<le> of_int (round_ties_even (x / ?p))"
    by (simp only: of_int_le_iff)
  then have "of_int (t + 1) * ?p \<le> of_int (round_ties_even (x / ?p)) * ?p"
    using two_powi_pos [of "binary32_exponent x"] by (simp only: mult_le_cancel_right_pos)
  then show ?thesis
    by (simp only: binary32_round_pos [OF assms(1)])
qed

lemma grid_int: "e \<le> 0 \<Longrightarrow> of_int (n * 2 ^ nat (- e)) * (2 :: rat) powi e = of_int n"
  by (simp add: power_int_def field_simps)

lemma exponent_small:
  assumes "0 < x" "x < 2 powi c"
  shows "binary32_exponent x + 23 < c"
proof -
  have "(2 :: rat) powi (binary32_exponent x + 23) < 2 powi c"
    using exponent_bounds [OF assms(1)] assms(2) by linarith
  then show ?thesis
    by (rule two_powi_less_exp)
qed

lemma binary32_round_exact:
  assumes "0 < x" "x < 2 powi 24" "x = of_int n"
  shows "binary32_round x = x"
proof -
  let ?e = "binary32_exponent x"
  have e: "?e \<le> 0"
    using exponent_small [OF assms(1,2)] by simp
  have g: "of_int (n * 2 ^ nat (- ?e)) * (2 :: rat) powi ?e = x"
    using grid_int [OF e, of n] assms(3) by simp
  have "binary32_round x \<le> of_int (n * 2 ^ nat (- ?e)) * 2 powi ?e"
    using g by (intro round_le_grid [OF assms(1)]) simp
  moreover have "of_int (n * 2 ^ nat (- ?e)) * 2 powi ?e \<le> binary32_round x"
    using g by (intro round_ge_grid [OF assms(1)]) simp
  ultimately show ?thesis
    using g by simp
qed

lemma binary32_round_of_nat:
  assumes "n < 16777216"
  shows "binary32_round (of_nat n) = of_nat n"
proof (cases "n = 0")
  case True
  then show ?thesis
    by (simp add: binary32_round_def)
next
  case False
  then have 1: "(0 :: rat) < of_nat n"
    by simp
  have "(of_nat n :: rat) < of_nat 16777216"
    using assms by (simp only: of_nat_less_iff)
  then have 2: "(of_nat n :: rat) < 2 powi 24"
    by simp
  have 3: "(of_nat n :: rat) = of_int (int n)"
    by simp
  show ?thesis
    using 1 2 3 by (rule binary32_round_exact)
qed

lemma threshold_le:
  assumes "0 < x" "x \<le> 3 / 4"
  shows "binary32_round x \<le> 3 / 4"
proof -
  let ?e = "binary32_exponent x"
  have "x < 2 powi 0"
    using assms(2) by simp
  then have e: "?e + 2 \<le> 0"
    using exponent_small [OF assms(1), of 0] by simp
  have "(2 :: rat) powi ?e = 2 powi ((?e + 2) + (- 2))"
    by simp
  also have "\<dots> = 2 powi (?e + 2) * 2 powi (- 2)"
    by (rule power_int_add) simp
  finally have p: "(2 :: rat) powi ?e = 2 powi (?e + 2) / 4"
    by (simp add: power_int_minus_divide)
  have g: "of_int (3 * 2 ^ nat (- (?e + 2))) * (2 :: rat) powi ?e = 3 / 4"
    using grid_int [OF e, of 3] by (simp add: p)
  have "binary32_round x \<le> of_int (3 * 2 ^ nat (- (?e + 2))) * 2 powi ?e"
    using assms(2) by (intro round_le_grid [OF assms(1)]) (simp only: g)
  then show ?thesis
    by (simp only: g)
qed

lemma threshold_ge1:
  assumes "1 \<le> x" "x < 2 powi 24"
  shows "1 \<le> binary32_round x"
proof -
  let ?e = "binary32_exponent x"
  have x: "0 < x"
    using assms(1) by simp
  have e: "?e \<le> 0"
    using exponent_small [OF x assms(2)] by simp
  have g: "of_int (1 * 2 ^ nat (- ?e)) * (2 :: rat) powi ?e = 1"
    using grid_int [OF e, of 1] by simp
  have "of_int (1 * 2 ^ nat (- ?e)) * 2 powi ?e \<le> binary32_round x"
    using assms(1) by (intro round_ge_grid [OF x]) (simp only: g)
  then show ?thesis
    by (simp only: g)
qed

lemma threshold_gt:
  assumes "x < 1" "3 / 4 + 1 / 33554432 < x"
  shows "3 / 4 < binary32_round x"
proof -
  let ?e = "binary32_exponent x"
  have x: "0 < x"
    using assms(2) by simp
  have "x < 2 powi 0"
    using assms(1) by simp
  then have e1: "?e \<le> - 24"
    using exponent_small [OF x, of 0] by simp
  have "(2 :: rat) powi (- 1) < x"
    using assms(2) by (simp add: power_int_minus_divide)
  then have "(2 :: rat) powi (- 1) < 2 powi (?e + 24)"
    using exponent_bounds [OF x] by linarith
  then have "- 1 < ?e + 24"
    by (rule two_powi_less_exp)
  then have e: "?e = - 24"
    using e1 by simp
  have p: "(2 :: rat) powi ?e = 1 / 16777216"
    by (simp add: e power_int_minus_divide)
  have "(of_int 12582912 + 1 / 2) * 2 powi ?e < x"
    using assms(2) by (simp add: p)
  then have "of_int (12582912 + 1) * 2 powi ?e \<le> binary32_round x"
    by (rule round_gt_grid [OF x])
  then show ?thesis
    by (simp add: p)
qed

text \<open>
  Below \<open>2 ^ 24\<close> entries and \<open>2 ^ 23\<close> buckets the single-precision quotient exceeds
  \<open>0.75\<close> exactly when the exact quotient does.
\<close>

lemma threshold_nat:
  fixes a b :: nat
  assumes "a < 16777216" "0 < b" "b < 8388608"
  shows "3 / 4 < binary32_round (of_nat a / of_nat b) \<longleftrightarrow> 3 * b < 4 * a"
proof -
  let ?a = "of_nat a :: rat" and ?b = "of_nat b :: rat"
  have b: "0 < ?b" "1 \<le> ?b" "?b < 8388608"
    using assms(2,3) by simp_all
  have a: "0 \<le> ?a" "?a < 16777216"
    using assms(1) by simp_all
  show ?thesis
  proof (cases "3 * b < 4 * a")
    case True
    then have "3 * b + 1 \<le> 4 * a"
      by simp
    then have "(of_nat (3 * b + 1) :: rat) \<le> of_nat (4 * a)"
      by (simp only: of_nat_le_iff)
    then have l: "3 * ?b + 1 \<le> 4 * ?a"
      by simp
    have "3 / 4 < binary32_round (?a / ?b)"
    proof (cases "1 \<le> ?a / ?b")
      case True
      have "?a / ?b \<le> ?a / 1"
        using b(1,2) a(1) by (intro divide_left_mono) simp_all
      then have "?a / ?b < 2 powi 24"
        using a(2) by simp
      then have "1 \<le> binary32_round (?a / ?b)"
        by (rule threshold_ge1 [OF True])
      then show ?thesis
        by simp
    next
      case False
      then have "?a / ?b < 1"
        by simp
      moreover have "3 / 4 + 1 / 33554432 < ?a / ?b"
      proof -
        have "(3 / 4 + 1 / 33554432) * ?b = 3 * ?b / 4 + ?b / 33554432"
          by (simp add: field_simps)
        also have "\<dots> < 3 * ?b / 4 + 1 / 4"
          using b(3) by simp
        also have "\<dots> \<le> ?a"
          using l by simp
        finally show ?thesis
          using b(1) by (simp add: pos_less_divide_eq)
      qed
      ultimately show ?thesis
        by (rule threshold_gt)
    qed
    then show ?thesis
      using True by simp
  next
    case False
    then have "4 * a \<le> 3 * b"
      by simp
    then have "(of_nat (4 * a) :: rat) \<le> of_nat (3 * b)"
      by (simp only: of_nat_le_iff)
    then have "4 * ?a \<le> 3 * ?b"
      by simp
    then have l: "?a / ?b \<le> 3 / 4"
      using b(1) by (simp add: field_simps)
    have "binary32_round (?a / ?b) \<le> 3 / 4"
    proof (cases "0 < ?a / ?b")
      case True
      then show ?thesis
        using l by (rule threshold_le)
    next
      case False
      then show ?thesis
        by (simp add: binary32_round_def)
    qed
    then show ?thesis
      using False by simp
  qed
qed

lemma load_factor_test:
  assumes "unat (num_entries ht) < 16777216" "0 < unat (num_buckets ht)"
    "unat (num_buckets ht) < 8388608"
  shows "LOAD_FACTOR_THRESHOLD < load_factor ht
           \<longleftrightarrow> 3 * unat (num_buckets ht) < 4 * unat (num_entries ht)"
proof -
  have "load_factor ht
          = binary32_round (of_nat (unat (num_entries ht)) / of_nat (unat (num_buckets ht)))"
    using assms(1,3)
    by (simp only: load_factor_def float_div_def float_of_size_t_def binary32_round_of_nat)
  then show ?thesis
    using threshold_nat [OF assms] by (simp only: LOAD_FACTOR_THRESHOLD_def)
qed

subsection \<open>When the table grows\<close>

lemma run_snoc:
  "run h ht (xs @ [x])
     = (case run h ht xs of
          (rs, ht1, h1) \<Rightarrow> (case apply_op h1 ht1 x of (r, ht2, h2) \<Rightarrow> (rs @ [r], ht2, h2)))"
  by (induction xs arbitrary: h ht) (simp_all split: prod.splits)

lemma calloc_granted:
  assumes "grants h" "uint n * uint sz < 2 ^ 64"
  shows "calloc h n sz = (True, snd (malloc h))"
  using assms malloc_grants [OF assms(1)] by (cases "malloc h") (simp add: calloc_def)

lemma ht_resize_granted:
  assumes "ht_wf ht" "grants h" "unat (num_buckets ht) < 8388608"
    "ht_resize h ht = (r, ht', h')"
  shows "num_buckets ht' = num_buckets ht * 2"
proof -
  have "unat (num_buckets ht * 2) = 2 * unat (num_buckets ht)"
    using assms(3) by (intro unat_double) simp
  then have "unat (num_buckets ht * 2) < 16777216"
    using assms(3) by simp
  then have "int (unat (num_buckets ht * 2)) < 16777216"
    by linarith
  moreover have u: "uint (num_buckets ht * 2) = int (unat (num_buckets ht * 2))"
    by (rule uint_nat)
  ultimately have "uint (num_buckets ht * 2) < 16777216"
    by (simp only: u)
  then have "uint (num_buckets ht * 2) * 8 < 18446744073709551616"
    by linarith
  then have "uint (num_buckets ht * 2) * uint sizeof_ptr < 2 ^ 64"
    by (simp add: sizeof_ptr_def)
  then have c: "calloc h (num_buckets ht * 2) sizeof_ptr = (True, snd (malloc h))"
    using calloc_granted [OF assms(2)] by blast
  show ?thesis
    using assms(4)
  proof (cases rule: ht_resize_cases)
    case failed
    then show ?thesis
      using c by simp
  next
    case resized
    then show ?thesis
      by simp
  qed
qed

text \<open>The insertion of a key that is not in the store, by an allocator that grants.\<close>

lemma fresh_insert:
  assumes inv: "ht_inv ht" and g: "grants h" and lim: "length k \<le> 256" "length v \<le> 4096"
    and fresh: "abs_map ht k = None"
    and small: "unat (num_entries ht) < 16777216" "unat (num_buckets ht) < 8388608"
    and s: "ht_set h ht k v = (r, ht', h')"
  shows "r = 0 \<and> ht_inv ht' \<and> grants h' \<and> abs_map ht' = (abs_map ht)(k \<mapsto> v)
    \<and> num_entries ht' = num_entries ht + 1
    \<and> num_buckets ht'
         = (if 3 * unat (num_buckets ht) < 4 * unat (num_entries ht)
            then num_buckets ht * 2 else num_buckets ht)"
proof -
  have wf: "ht_wf ht"
    using inv by (simp add: ht_inv_def)
  then have pos: "0 < unat (num_buckets ht)"
    by (simp add: ht_wf_def word_greater_zero_iff unat_gt_0)
  have r: "r = 0"
    using ht_set_grants [OF lim g, of ht] s by simp
  have g': "grants h'"
    using ht_set_heap [OF g, of ht k v] s by simp
  note test = load_factor_test [OF small(1) pos small(2)]
  have nb: "num_buckets ht'
         = (if 3 * unat (num_buckets ht) < 4 * unat (num_entries ht)
            then num_buckets ht * 2 else num_buckets ht)"
    using lim s
  proof (cases rule: ht_set_cases)
    case (resize r1 ht1 h1)
    have "num_buckets ht1 = num_buckets ht * 2"
      using ht_resize_granted [OF wf g small(2) resize(2)] .
    moreover have "num_buckets ht' = num_buckets ht1"
      using ht_set_entry_inv [OF ht_resize_inv(1) [OF inv resize(2)] resize(3)] by simp
    ultimately show ?thesis
      using resize(1) test by simp
  next
    case plain
    have "num_buckets ht' = num_buckets ht"
      using ht_set_entry_inv [OF inv plain(2)] by simp
    then show ?thesis
      using plain(1) test by simp
  qed
  show ?thesis
    using ht_set_inv [OF inv s] r g' nb fresh by simp
qed

lemma inserts_from_fresh:
  assumes c: "ht_create h n = (Some ht0, h0)" and small: "unat (num_buckets ht0) < 4194304"
    and g: "grants h0"
  shows "distinct (map fst kvs) \<Longrightarrow>
    (\<forall>(k, v) \<in> set kvs. length k \<le> 256 \<and> length v \<le> 4096) \<Longrightarrow>
    4 * (length kvs - 1) \<le> 6 * unat (num_buckets ht0) \<Longrightarrow>
    run h0 ht0 (inserts kvs) = (rs, ht, h1) \<Longrightarrow>
    ht_inv ht \<and> grants h1 \<and> (\<forall>r \<in> set rs. r = 0)
    \<and> unat (num_entries ht) = length kvs
    \<and> dom (abs_map ht) = fst ` set kvs
    \<and> (\<forall>(k, v) \<in> set kvs. abs_map ht k = Some v)
    \<and> num_buckets ht
         = (if 4 * (length kvs - 1) \<le> 3 * unat (num_buckets ht0)
            then num_buckets ht0 else num_buckets ht0 * 2)"
proof (induction kvs arbitrary: rs ht h1 rule: rev_induct)
  case Nil
  then have "ht = ht0" "h1 = h0" "rs = []"
    by (simp_all add: inserts_def)
  then show ?case
    using ht_create_inv [OF c] g by (simp add: dom_abs_map ht_inv_def)
next
  case (snoc kv kvs)
  obtain k v where kv: "kv = (k, v)"
    by (cases kv)
  obtain rs' ht' h' where run': "run h0 ht0 (inserts kvs) = (rs', ht', h')"
    by (cases "run h0 ht0 (inserts kvs)") auto
  have d: "distinct (map fst kvs)" and fr: "k \<notin> fst ` set kvs"
    using snoc.prems(1) by (simp_all add: kv)
  have l: "\<forall>(k, v) \<in> set kvs. length k \<le> 256 \<and> length v \<le> 4096"
    and lk: "length k \<le> 256" "length v \<le> 4096"
    using snoc.prems(2) by (simp_all add: kv)
  have len: "4 * length kvs \<le> 6 * unat (num_buckets ht0)"
    using snoc.prems(3) by simp
  then have len': "4 * (length kvs - 1) \<le> 6 * unat (num_buckets ht0)"
    by simp
  note ih = snoc.IH [OF d l len' run']
  have inv': "ht_inv ht'" and g': "grants h'" and ne': "unat (num_entries ht') = length kvs"
    and dom': "dom (abs_map ht') = fst ` set kvs"
    and nb': "num_buckets ht'
         = (if 4 * (length kvs - 1) \<le> 3 * unat (num_buckets ht0)
            then num_buckets ht0 else num_buckets ht0 * 2)"
    using ih by simp_all
  have dbl: "unat (num_buckets ht0 * 2) = 2 * unat (num_buckets ht0)"
    using small by (intro unat_double) simp
  have fresh: "abs_map ht' k = None"
    using fr dom' by auto
  have s1: "unat (num_entries ht') < 16777216"
    using len small by (simp add: ne')
  have s2: "unat (num_buckets ht') < 8388608"
    using small dbl by (simp add: nb')
  obtain r where s: "ht_set h' ht' k v = (r, ht, h1)" and rs: "rs = rs' @ [r]"
    using snoc.prems(4) run' by (auto simp: inserts_def kv run_snoc split: prod.splits)
  note step = fresh_insert [OF inv' g' lk fresh s1 s2 s]
  have ne1: "num_entries ht = num_entries ht' + 1"
    using step by simp
  have "unat (num_entries ht' + 1) = unat (num_entries ht') + 1"
    using s1 by (simp add: unat_word_ariths)
  then have ne: "unat (num_entries ht) = length (kvs @ [kv])"
    by (simp add: ne1 ne')
  have nb: "num_buckets ht
         = (if 4 * (length (kvs @ [kv]) - 1) \<le> 3 * unat (num_buckets ht0)
            then num_buckets ht0 else num_buckets ht0 * 2)"
  proof (cases "4 * (length kvs - 1) \<le> 3 * unat (num_buckets ht0)")
    case True
    then have "num_buckets ht' = num_buckets ht0"
      by (simp add: nb')
    then show ?thesis
      using step by (auto simp: ne')
  next
    case False
    then have n2: "num_buckets ht' = num_buckets ht0 * 2"
      by (simp add: nb')
    have "\<not> 3 * unat (num_buckets ht') < 4 * unat (num_entries ht')"
      using len by (simp add: n2 dbl ne')
    then have "num_buckets ht = num_buckets ht'"
      using step by simp
    moreover have "\<not> 4 * (length (kvs @ [kv]) - 1) \<le> 3 * unat (num_buckets ht0)"
      using False by simp
    ultimately show ?thesis
      by (simp add: n2)
  qed
  have ab: "abs_map ht = (abs_map ht')(k \<mapsto> v)"
    using step by simp
  have "\<forall>(k', v') \<in> set kvs. abs_map ht k' = Some v'"
  proof (intro ballI, clarify)
    fix k' v'
    assume m: "(k', v') \<in> set kvs"
    then have "k' \<in> fst ` set kvs"
      by force
    then have "k' \<noteq> k"
      using fr by auto
    moreover have "abs_map ht' k' = Some v'"
      using ih m by auto
    ultimately show "abs_map ht k' = Some v'"
      by (simp add: ab)
  qed
  then have all: "\<forall>(k', v') \<in> set (kvs @ [kv]). abs_map ht k' = Some v'"
    by (simp add: kv ab)
  have dom: "dom (abs_map ht) = fst ` set (kvs @ [kv])"
    by (auto simp: ab dom' kv)
  have "\<forall>r \<in> set rs. r = 0"
    using ih step by (simp add: rs)
  then show ?case
    using step ne nb all dom by blast
qed

lemma fresh_store_created: "ht_create [] INITIAL_BUCKETS = (Some fresh_store, [])"
  unfolding fresh_store_def by code_simp

lemma fresh_store_num_buckets: "num_buckets fresh_store = 64"
  unfolding fresh_store_def by code_simp

lemma sample_kvs_prefix:
  assumes "m \<le> 50"
  shows "distinct (map fst (sample_kvs m))"
    "\<forall>(k, v) \<in> set (sample_kvs m). length k \<le> 256 \<and> length v \<le> 4096"
proof -
  have "inj_on (\<lambda>i. replicate (Suc i) (CHR ''k'')) (set [0..<m])"
  proof (rule inj_onI)
    fix i j
    assume "replicate (Suc i) (CHR ''k'') = replicate (Suc j) (CHR ''k'')"
    then have "length (replicate (Suc i) (CHR ''k'')) = length (replicate (Suc j) (CHR ''k''))"
      by (rule arg_cong)
    then show "i = j"
      by simp
  qed
  then show "distinct (map fst (sample_kvs m))"
    by (simp add: sample_kvs_def comp_def distinct_map)
  show "\<forall>(k, v) \<in> set (sample_kvs m). length k \<le> 256 \<and> length v \<le> 4096"
    using assms by (auto simp: sample_kvs_def)
qed

lemma store_after_facts:
  assumes "m \<le> 50"
  shows "ht_inv (store_after m)" "unat (num_entries (store_after m)) = m"
    "num_buckets (store_after m) = (if m \<le> 49 then 64 else 128)"
    "\<forall>(k, v) \<in> set (sample_kvs m). abs_map (store_after m) k = Some v"
proof -
  have s: "unat (num_buckets fresh_store) < 4194304"
    by (simp add: fresh_store_num_buckets)
  have g: "grants []"
    by (simp add: grants_def)
  have l: "4 * (length (sample_kvs m) - 1) \<le> 6 * unat (num_buckets fresh_store)"
    using assms by (simp add: fresh_store_num_buckets sample_kvs_def)
  have r: "run [] fresh_store (inserts (sample_kvs m))
             = (fst (run [] fresh_store (inserts (sample_kvs m))), store_after m,
                snd (snd (run [] fresh_store (inserts (sample_kvs m)))))"
    by (simp add: store_after_def)
  note f = inserts_from_fresh [OF fresh_store_created s g sample_kvs_prefix [OF assms] l r]
  show "ht_inv (store_after m)" "unat (num_entries (store_after m)) = m"
    "\<forall>(k, v) \<in> set (sample_kvs m). abs_map (store_after m) k = Some v"
    using f by (simp_all add: sample_kvs_def)
  have "length (sample_kvs m) = m"
    by (simp add: sample_kvs_def)
  then show "num_buckets (store_after m) = (if m \<le> 49 then 64 else 128)"
    using f assms by (auto simp: fresh_store_num_buckets)
qed

text \<open>
  C2, as amended. Take a store as \<open>ht_create\<close> returns it, of fewer than \<open>2\<^sup>2\<^sup>2\<close>
  buckets, an allocator that grants its requests, and pairs with distinct keys within the
  size limits, at most one and a half times the bucket count plus one of them. Every insertion succeeds and the count is the
  number of pairs. The bucket count is still the initial one when the last insertion
  started with at most three quarters as many entries as buckets, and it is twice the
  initial one when the last insertion started with more: the table is doubled once, by
  the insertion that follows the one whose completion took the load factor above \<open>0.75\<close>,
  since \<open>ht_set\<close> tests the load factor before it inserts, strictly against \<open>0.75\<close>.
  In both cases every inserted key is retrieved with its value. With 64 buckets the 49th
  insertion leaves 64 buckets and the 50th leaves 128.
\<close>

theorem growth_follows_the_crossing_insert:
  assumes "ht_create h n = (Some ht0, h0)" "unat (num_buckets ht0) < 4194304" "grants h0"
    "distinct (map fst kvs)" "\<forall>(k, v) \<in> set kvs. length k \<le> 256 \<and> length v \<le> 4096"
    "4 * (length kvs - 1) \<le> 6 * unat (num_buckets ht0)"
    "run h0 ht0 (inserts kvs) = (rs, ht, h1)"
  shows "(\<forall>r \<in> set rs. r = 0) \<and> unat (fst (ht_stats ht)) = length kvs
    \<and> num_buckets ht
         = (if 4 * (length kvs - 1) \<le> 3 * unat (num_buckets ht0)
            then num_buckets ht0 else num_buckets ht0 * 2)
    \<and> (\<forall>(k, v) \<in> set kvs. ht_get ht k = Some v)
    \<and> (LOAD_FACTOR_THRESHOLD < load_factor ht
         \<longleftrightarrow> 3 * unat (num_buckets ht) < 4 * length kvs)"
proof -
  note f = inserts_from_fresh [OF assms]
  have inv: "ht_inv ht" and ne: "unat (num_entries ht) = length kvs"
    and nb: "num_buckets ht
         = (if 4 * (length kvs - 1) \<le> 3 * unat (num_buckets ht0)
            then num_buckets ht0 else num_buckets ht0 * 2)"
    using f by simp_all
  have dbl: "unat (num_buckets ht0 * 2) = 2 * unat (num_buckets ht0)"
    using assms(2) by (intro unat_double) simp
  have s1: "unat (num_entries ht) < 16777216"
    using assms(2,6) by (simp add: ne)
  have s2: "unat (num_buckets ht) < 8388608"
    using assms(2) dbl by (simp add: nb)
  have pos: "0 < unat (num_buckets ht)"
    using inv by (simp add: ht_inv_def ht_wf_def word_greater_zero_iff unat_gt_0)
  have t: "LOAD_FACTOR_THRESHOLD < load_factor ht
         \<longleftrightarrow> 3 * unat (num_buckets ht) < 4 * length kvs"
    using load_factor_test [OF s1 pos s2] by (simp add: ne)
  have g: "\<forall>(k, v) \<in> set kvs. ht_get ht k = Some v"
    using f by (simp add: ht_inv_get [OF inv])
  show ?thesis
    using f t g by (simp add: ht_stats_def)
qed

theorem growth_follows_the_crossing_insert_witness:
  "num_buckets (store_after 49) = 64 \<and> unat (fst (ht_stats (store_after 49))) = 49
   \<and> LOAD_FACTOR_THRESHOLD < load_factor (store_after 49)
   \<and> num_buckets (store_after 50) = 128 \<and> unat (fst (ht_stats (store_after 50))) = 50
   \<and> ht_get (store_after 50) ''k'' = Some ''v''
   \<and> ht_get (store_after 50) ''kk'' = Some ''vv''"
proof -
  have s: "unat (num_buckets fresh_store) < 4194304"
    by (simp add: fresh_store_num_buckets)
  have g: "grants []"
    by (simp add: grants_def)
  have l: "4 * (length (sample_kvs m) - 1) \<le> 6 * unat (num_buckets fresh_store)" if "m \<le> 50" for m
    using that by (simp add: fresh_store_num_buckets sample_kvs_def)
  have r: "run [] fresh_store (inserts (sample_kvs m))
             = (fst (run [] fresh_store (inserts (sample_kvs m))), store_after m,
                snd (snd (run [] fresh_store (inserts (sample_kvs m)))))" for m
    by (simp add: store_after_def)
  have len: "length (sample_kvs m) = m" for m
    by (simp add: sample_kvs_def)
  have m49: "(49 :: nat) \<le> 50" and m50: "(50 :: nat) \<le> 50"
    by simp_all
  note t49 = growth_follows_the_crossing_insert
    [OF fresh_store_created s g sample_kvs_prefix [OF m49] l [OF m49] r]
  note t50 = growth_follows_the_crossing_insert
    [OF fresh_store_created s g sample_kvs_prefix [OF m50] l [OF m50] r]
  have k0: "(''k'', ''v'') \<in> set (sample_kvs 50)"
    by (auto simp: sample_kvs_def image_iff intro!: bexI [of _ 0])
  have k1: "(''kk'', ''vv'') \<in> set (sample_kvs 50)"
    by (auto simp: sample_kvs_def image_iff intro!: bexI [of _ 1])
  have a: "num_buckets (store_after 49) = 64" "unat (fst (ht_stats (store_after 49))) = 49"
    "LOAD_FACTOR_THRESHOLD < load_factor (store_after 49)"
    using t49 by (simp_all add: len fresh_store_num_buckets)
  have b: "num_buckets (store_after 50) = 128" "unat (fst (ht_stats (store_after 50))) = 50"
    using t50 by (simp_all add: len fresh_store_num_buckets)
  have c: "ht_get (store_after 50) ''k'' = Some ''v''"
    "ht_get (store_after 50) ''kk'' = Some ''vv''"
    using t50 k0 k1 by auto
  show ?thesis
    using a b c by blast
qed

text \<open>
  The doubling does not come before the completion of the insertion that crosses the
  threshold. The 49th insertion into the store of 64 buckets is the one whose completion
  first takes the load factor above \<open>0.75\<close>: after 48 insertions the test fails, after 49
  it holds. When the 49th insertion completes the store still has 64 buckets: no doubling
  has been triggered.
\<close>

theorem growth_follows_the_crossing_insert_counterexample:
  "\<not> LOAD_FACTOR_THRESHOLD < load_factor (store_after 48)
   \<and> LOAD_FACTOR_THRESHOLD < load_factor (store_after 49)
   \<and> unat (num_entries (store_after 49)) = 49
   \<and> num_buckets (store_after 48) = 64
   \<and> num_buckets (store_after 49) = 64"
proof -
  have m48: "(48 :: nat) \<le> 50" and m49: "(49 :: nat) \<le> 50"
    by simp_all
  note f48 = store_after_facts [OF m48]
  note f49 = store_after_facts [OF m49]
  have "LOAD_FACTOR_THRESHOLD < load_factor (store_after 48)
          \<longleftrightarrow> 3 * unat (num_buckets (store_after 48)) < 4 * unat (num_entries (store_after 48))"
    using f48(2,3) by (intro load_factor_test) simp_all
  then have 1: "\<not> LOAD_FACTOR_THRESHOLD < load_factor (store_after 48)"
    using f48(2,3) by simp
  have "LOAD_FACTOR_THRESHOLD < load_factor (store_after 49)
          \<longleftrightarrow> 3 * unat (num_buckets (store_after 49)) < 4 * unat (num_entries (store_after 49))"
    using f49(2,3) by (intro load_factor_test) simp_all
  then have 2: "LOAD_FACTOR_THRESHOLD < load_factor (store_after 49)"
    using f49(2,3) by simp
  show ?thesis
    using 1 2 f48(3) f49(2,3) by simp
qed

end
